theory Spec2Isabelle
  imports Complex_Main
begin

section \<open>JavaScript values\<close>

text \<open>
  The values a JavaScript caller can pass at run time. The TypeScript signatures of
  \<open>src/getClientIp.ts\<close> say \<open>string | null | undefined\<close>, but
  \<open>getClientIpFromXForwardedFor\<close> tests \<open>typeof value\<close> itself, so its model
  takes any value. Only truthiness and \<open>typeof\<close> are ever read from a value that is
  not a string, so objects, symbols and functions carry no content.
\<close>

datatype jsnumber = NaN | PosInfinity | NegInfinity | Finite real

datatype jsval =
    JUndefined
  | JNull
  | JBoolean bool
  | JNumber jsnumber
  | JBigInt int
  | JString string
  | JSymbol
  | JObject
  | JFunction

text \<open>\<open>ToBoolean\<close>: what \<open>!value\<close>, \<open>value && ...\<close> and \<open>if (value)\<close> read.\<close>

fun truthy :: "jsval \<Rightarrow> bool" where
  "truthy JUndefined = False"
| "truthy JNull = False"
| "truthy (JBoolean b) = b"
| "truthy (JNumber NaN) = False"
| "truthy (JNumber (Finite r)) = (r \<noteq> 0)"
| "truthy (JNumber PosInfinity) = True"
| "truthy (JNumber NegInfinity) = True"
| "truthy (JBigInt i) = (i \<noteq> 0)"
| "truthy (JString s) = (s \<noteq> [])"
| "truthy JSymbol = True"
| "truthy JObject = True"
| "truthy JFunction = True"

fun typeof :: "jsval \<Rightarrow> string" where
  "typeof JUndefined = ''undefined''"
| "typeof JNull = ''object''"
| "typeof (JBoolean b) = ''boolean''"
| "typeof (JNumber n) = ''number''"
| "typeof (JBigInt i) = ''bigint''"
| "typeof (JString s) = ''string''"
| "typeof JSymbol = ''symbol''"
| "typeof JObject = ''object''"
| "typeof JFunction = ''function''"

text \<open>
  The declared parameter type \<open>string | null | undefined\<close> of \<open>isIp\<close>, which is also
  what \<open>Headers.get\<close> returns (\<open>string | null\<close>) and what the two resolving
  functions return. Header values are byte strings, so an 8-bit \<open>char\<close> is one
  code unit of the JavaScript string.
\<close>

datatype maybe_string = Undefined | Null | Str string

fun js :: "maybe_string \<Rightarrow> jsval" where
  "js Undefined = JUndefined"
| "js Null = JNull"
| "js (Str s) = JString s"

section \<open>String methods\<close>

text \<open>
  \<open>String.prototype.trim\<close> strips white space and line terminators from both ends.
  Among the code units below 256 these are TAB, LF, VT, FF, CR, SP and NBSP.
\<close>

definition is_white_space :: "char \<Rightarrow> bool" where
  "is_white_space c = (c \<in> set [CHR 0x09, CHR 0x0A, CHR 0x0B, CHR 0x0C, CHR 0x0D, CHR 0x20, CHR 0xA0])"

definition trim :: "string \<Rightarrow> string" where
  "trim s = rev (dropWhile is_white_space (rev (dropWhile is_white_space s)))"

text \<open>
  \<open>s.split(sep)\<close> for a separator of one character: the pieces between the
  separators, empty pieces kept, so that the result is never empty and
  \<open>.split(,)\<close> is \<open>[]\<close>. (The \<open>[]\<close> branch below is never taken.)
\<close>

fun split_on :: "char \<Rightarrow> string \<Rightarrow> string list" where
  "split_on sep [] = [[]]"
| "split_on sep (c # cs) =
     (if c = sep then [] # split_on sep cs
      else (case split_on sep cs of t # ts \<Rightarrow> (c # t) # ts | [] \<Rightarrow> [[c]]))"

definition str_includes :: "string \<Rightarrow> char \<Rightarrow> bool" where
  "str_includes s c = (c \<in> set s)"

section \<open>Regular expressions\<close>

text \<open>
  The two patterns of \<open>regexes\<close> use look-ahead, back-references and word boundaries,
  so they are embedded as backtracking matchers in the style of the ECMAScript
  specification: a matcher takes a state (the position in the input and the captures)
  and returns every state in which it can end, in the order in which backtracking
  tries them. A state keeps the position as the character before it (\<open>None\<close> at the
  start of the input) and the input that is left.
\<close>

record mstate =
  prev :: "char option"
  rest :: string
  caps :: "nat \<Rightarrow> string option"

type_synonym matcher = "mstate \<Rightarrow> mstate list"

text \<open>
  \<open>Canonicalize\<close> under the \<open>i\<close> flag (without \<open>u\<close>): the code unit of the
  upper-case form. Below 256 that moves \<open>a-z\<close> and the Latin-1 lower-case letters;
  the two letters whose upper-case form lies beyond 255 (\<open>0xB5\<close> and \<open>0xFF\<close>) keep
  their own code unit, which identifies them with no other 8-bit character, as in
  ECMAScript.
\<close>

definition canonicalize :: "bool \<Rightarrow> char \<Rightarrow> nat" where
  "canonicalize ignore_case c =
     (let n = (of_char c :: nat)
      in if ignore_case \<and> ((97 \<le> n \<and> n \<le> 122) \<or> (224 \<le> n \<and> n \<le> 254 \<and> n \<noteq> 247))
         then n - 32 else n)"

definition advance :: "nat \<Rightarrow> mstate \<Rightarrow> mstate" where
  "advance k x =
     x\<lparr>prev := (if k = 0 then prev x else Some (rest x ! (k - 1))), rest := drop k (rest x)\<rparr>"

text \<open>A character class, given by its members: \<open>[abc]\<close>, \<open>\d\<close>, or one character.\<close>

definition m_class :: "bool \<Rightarrow> string \<Rightarrow> matcher" where
  "m_class ignore_case members x =
     (case rest x of
        [] \<Rightarrow> []
      | c # cs \<Rightarrow>
          if list_ex (\<lambda>a. canonicalize ignore_case a = canonicalize ignore_case c) members
          then [advance 1 x] else [])"

definition m_char :: "bool \<Rightarrow> char \<Rightarrow> matcher" where
  "m_char ignore_case c = m_class ignore_case [c]"

text \<open>\<open>.\<close> without the \<open>s\<close> flag: any character but a line terminator.\<close>

definition m_dot :: matcher where
  "m_dot x =
     (case rest x of
        [] \<Rightarrow> []
      | c # cs \<Rightarrow> if c = CHR 0x0A \<or> c = CHR 0x0D then [] else [advance 1 x])"

definition m_empty :: matcher where
  "m_empty x = [x]"

definition m_seq :: "matcher \<Rightarrow> matcher \<Rightarrow> matcher" where
  "m_seq a b x = concat (map b (a x))"

definition m_alt :: "matcher \<Rightarrow> matcher \<Rightarrow> matcher" where
  "m_alt a b x = a x @ b x"

fun m_seqs :: "matcher list \<Rightarrow> matcher" where
  "m_seqs [] = m_empty"
| "m_seqs [m] = m"
| "m_seqs (m # ms) = m_seq m (m_seqs ms)"

fun m_alts :: "matcher list \<Rightarrow> matcher" where
  "m_alts [] = (\<lambda>x. [])"
| "m_alts [m] = m"
| "m_alts (m # ms) = m_alt m (m_alts ms)"

text \<open>A capturing group records the text its body consumed.\<close>

definition consumed :: "mstate \<Rightarrow> mstate \<Rightarrow> string" where
  "consumed x y = take (length (rest x) - length (rest y)) (rest x)"

definition m_group :: "nat \<Rightarrow> matcher \<Rightarrow> matcher" where
  "m_group n m x = map (\<lambda>y. y\<lparr>caps := (caps y)(n \<mapsto> consumed x y)\<rparr>) (m x)"

text \<open>
  A back-reference to a group that has captured nothing matches the empty string;
  otherwise it matches the captured text, compared through \<open>Canonicalize\<close>.
\<close>

definition m_backref :: "bool \<Rightarrow> nat \<Rightarrow> matcher" where
  "m_backref ignore_case n x =
     (case caps x n of
        None \<Rightarrow> [x]
      | Some t \<Rightarrow>
          if length t \<le> length (rest x) \<and>
             list_all2 (\<lambda>a b. canonicalize ignore_case a = canonicalize ignore_case b)
               t (take (length t) (rest x))
          then [advance (length t) x] else [])"

text \<open>
  \<open>(?=...)\<close> keeps the position and takes the captures of the first way its body
  matches; \<open>(?!...)\<close> succeeds where the body cannot match.
\<close>

definition m_lookahead :: "matcher \<Rightarrow> matcher" where
  "m_lookahead m x = (case m x of [] \<Rightarrow> [] | y # ys \<Rightarrow> [x\<lparr>caps := caps y\<rparr>])"

definition m_not_lookahead :: "matcher \<Rightarrow> matcher" where
  "m_not_lookahead m x = (if m x = [] then [x] else [])"

text \<open>\<open>^\<close> and \<open>$\<close> without the \<open>m\<close> flag, and \<open>\b\<close>.\<close>

definition m_bol :: matcher where
  "m_bol x = (if prev x = None then [x] else [])"

definition m_eol :: matcher where
  "m_eol x = (if rest x = [] then [x] else [])"

definition is_word_char :: "char \<Rightarrow> bool" where
  "is_word_char c =
     (let n = (of_char c :: nat)
      in (48 \<le> n \<and> n \<le> 57) \<or> (65 \<le> n \<and> n \<le> 90) \<or> (97 \<le> n \<and> n \<le> 122) \<or> n = 95)"

definition m_word_boundary :: matcher where
  "m_word_boundary x =
     (let a = (case prev x of None \<Rightarrow> False | Some c \<Rightarrow> is_word_char c);
          b = (case rest x of [] \<Rightarrow> False | c # cs \<Rightarrow> is_word_char c)
      in if a \<noteq> b then [x] else [])"

text \<open>
  The greedy quantifier \<open>m{lo,hi}\<close> (\<open>hi = None\<close> is no upper bound), following
  \<open>RepeatMatcher\<close>: each iteration starts with the captures of the groups inside
  \<open>m\<close> (\<open>parens\<close>) cleared; once \<open>lo\<close> iterations are done, an iteration that
  consumes nothing is refused, and stopping is tried after iterating. ECMAScript
  refuses the iteration whose end position equals its start position; no matcher
  here moves backwards, so this is the iteration that leaves no less input.
\<close>

definition clear_caps :: "nat list \<Rightarrow> mstate \<Rightarrow> mstate" where
  "clear_caps parens x = x\<lparr>caps := (\<lambda>n. if n \<in> set parens then None else caps x n)\<rparr>"

fun dec_max :: "nat option \<Rightarrow> nat option" where
  "dec_max None = None"
| "dec_max (Some k) = Some (k - 1)"

function m_repeat :: "matcher \<Rightarrow> nat list \<Rightarrow> nat \<Rightarrow> nat option \<Rightarrow> matcher" where
  "m_repeat m parens lo hi x =
     (if hi = Some 0 then [x]
      else if lo \<noteq> 0
        then concat (map (m_repeat m parens (lo - 1) (dec_max hi)) (m (clear_caps parens x)))
        else concat (map (m_repeat m parens 0 (dec_max hi))
               (filter (\<lambda>y. length (rest y) < length (rest x)) (m (clear_caps parens x)))) @ [x])"
  by pat_completeness auto
termination
  by (relation "measures [\<lambda>(m, parens, lo, hi, x). lo, \<lambda>(m, parens, lo, hi, x). length (rest x)]")
     auto

text \<open>
  \<open>RegExp.prototype.test\<close> for a pattern without the \<open>g\<close> and \<open>y\<close> flags: the
  pattern is tried at every start position from 0 to the length of the input, with
  no captures, until it matches.
\<close>

definition start_state :: "char option \<Rightarrow> string \<Rightarrow> mstate" where
  "start_state p s = \<lparr>prev = p, rest = s, caps = (\<lambda>n. None)\<rparr>"

fun test_from :: "matcher \<Rightarrow> char option \<Rightarrow> string \<Rightarrow> bool" where
  "test_from m p [] = (m (start_state p []) \<noteq> [])"
| "test_from m p (c # cs) = (m (start_state p (c # cs)) \<noteq> [] \<or> test_from m (Some c) cs)"

definition regex_test :: "matcher \<Rightarrow> string \<Rightarrow> bool" where
  "regex_test m s = test_from m None s"

declare m_repeat.simps [simp del]

section \<open>The two patterns\<close>

text \<open>
  \<open>regexes.ipv4\<close>:
  \<^verbatim>\<open>/^(?:(?:\d|[1-9]\d|1\d{2}|2[0-4]\d|25[0-5])\.){3}(?:\d|[1-9]\d|1\d{2}|2[0-4]\d|25[0-5])$/\<close>
\<close>

definition digit :: "bool \<Rightarrow> matcher" where
  "digit ic = m_class ic ''0123456789''"

definition ipv4_octet :: matcher where
  "ipv4_octet =
     m_alts [
       digit False,
       m_seq (m_class False ''123456789'') (digit False),
       m_seq (m_char False CHR ''1'') (m_repeat (digit False) [] 2 (Some 2)),
       m_seqs [m_char False CHR ''2'', m_class False ''01234'', digit False],
       m_seqs [m_char False CHR ''2'', m_char False CHR ''5'', m_class False ''012345'']]"

definition ipv4 :: matcher where
  "ipv4 =
     m_seqs [
       m_bol,
       m_repeat (m_seq ipv4_octet (m_char False CHR ''.'')) [] 3 (Some 3),
       ipv4_octet,
       m_eol]"

text \<open>
  \<open>regexes.ipv6\<close>, with the \<open>i\<close> flag:
  \<^verbatim>\<open>/^((?=.*::)(?!.*::.+::)(::)?([\dA-F]{1,4}:(:|\b)|){5}|([\dA-F]{1,4}:){6})\<close>
  \<^verbatim>\<open>((([\dA-F]{1,4}((?!\3)::|:\b|$))|(?!\2\3)){2}|(((2[0-4]|1\d|[1-9])?\d|25[0-5])\.?\b){4})$/i\<close>
  The capturing groups are numbered by their opening parenthesis, 1 to 12; each
  quantifier clears the groups inside its body.
\<close>

definition hex :: matcher where
  "hex = m_class True ''0123456789ABCDEF''"

definition hex14 :: matcher where
  "hex14 = m_repeat hex [] 1 (Some 4)"

definition colon :: matcher where
  "colon = m_char True CHR '':''"

definition colons :: matcher where
  "colons = m_seq colon colon"

definition any_star :: matcher where
  "any_star = m_repeat m_dot [] 0 None"

definition any_plus :: matcher where
  "any_plus = m_repeat m_dot [] 1 None"

definition ipv6_head_compressed :: matcher where
  "ipv6_head_compressed =
     m_seqs [
       m_lookahead (m_seq any_star colons),
       m_not_lookahead (m_seqs [any_star, colons, any_plus, colons]),
       m_repeat (m_group 2 colons) [2] 0 (Some 1),
       m_repeat
         (m_group 3 (m_alt (m_seqs [hex14, colon, m_group 4 (m_alt colon m_word_boundary)]) m_empty))
         [3, 4] 5 (Some 5)]"

definition ipv6_head_full :: matcher where
  "ipv6_head_full = m_repeat (m_group 5 (m_seq hex14 colon)) [5] 6 (Some 6)"

definition ipv6_tail_groups :: matcher where
  "ipv6_tail_groups =
     m_repeat
       (m_group 7
          (m_alt
             (m_group 8
                (m_seq hex14
                   (m_group 9
                      (m_alts [
                         m_seq (m_not_lookahead (m_backref True 3)) colons,
                         m_seq colon m_word_boundary,
                         m_eol]))))
             (m_not_lookahead (m_seq (m_backref True 2) (m_backref True 3)))))
       [7, 8, 9] 2 (Some 2)"

definition ipv6_tail_ipv4 :: matcher where
  "ipv6_tail_ipv4 =
     m_repeat
       (m_group 10
          (m_seqs [
             m_group 11
               (m_alt
                  (m_seq
                     (m_repeat
                        (m_group 12
                           (m_alts [
                              m_seq (m_char True CHR ''2'') (m_class True ''01234''),
                              m_seq (m_char True CHR ''1'') (digit True),
                              m_class True ''123456789'']))
                        [12] 0 (Some 1))
                     (digit True))
                  (m_seqs [m_char True CHR ''2'', m_char True CHR ''5'', m_class True ''012345''])),
             m_repeat (m_char True CHR ''.'') [] 0 (Some 1),
             m_word_boundary]))
       [10, 11, 12] 4 (Some 4)"

definition ipv6 :: matcher where
  "ipv6 =
     m_seqs [
       m_bol,
       m_group 1 (m_alt ipv6_head_compressed ipv6_head_full),
       m_group 6 (m_alt ipv6_tail_groups ipv6_tail_ipv4),
       m_eol]"

section \<open>The functions of getClientIp.ts\<close>

text \<open>
  \<open>isIp\<close> returns \<open>value && (regexes.ipv4.test(value) || regexes.ipv6.test(value))\<close>:
  a falsy \<open>value\<close> itself, and otherwise the boolean.
\<close>

fun isIp :: "maybe_string \<Rightarrow> jsval" where
  "isIp (Str s) =
     (if \<not> truthy (JString s) then JString s
      else JBoolean (regex_test ipv4 s \<or> regex_test ipv6 s))"
| "isIp v = js v"

datatype error = TypeError string

text \<open>The callback of \<open>value.split(",").map\<close>.\<close>

definition forwarded_entry :: "string \<Rightarrow> string" where
  "forwarded_entry e =
     (let ip = trim e
      in if str_includes ip CHR '':''
         then (let splitted = split_on CHR '':'' ip
               in if length splitted = 2 then splitted ! 0 else ip)
         else ip)"

text \<open>The \<open>for\<close> loop over \<open>forwardedIps\<close>, from index \<open>i\<close>.\<close>

function first_ip :: "string list \<Rightarrow> nat \<Rightarrow> maybe_string" where
  "first_ip forwardedIps i =
     (if i < length forwardedIps
      then (if truthy (isIp (Str (forwardedIps ! i))) then Str (forwardedIps ! i)
            else first_ip forwardedIps (i + 1))
      else Null)"
  by pat_completeness auto
termination
  by (relation "measure (\<lambda>(forwardedIps, i). length forwardedIps - i)") auto

declare first_ip.simps [simp del]

definition getClientIpFromXForwardedFor :: "jsval \<Rightarrow> error + maybe_string" where
  "getClientIpFromXForwardedFor v =
     (if \<not> truthy v then Inr Null
      else if typeof v \<noteq> ''string''
        then Inl (TypeError (''Expected a string, got '' @ [CHR 0x22] @ typeof v @ [CHR 0x22]))
      else (case v of
              JString s \<Rightarrow> Inr (first_ip (map forwarded_entry (split_on CHR '','' s)) 0)
            | _ \<Rightarrow> Inr Null))"

text \<open>
  A request: \<open>req.headers\<close> may be missing; when present it is a \<open>Headers\<close> object,
  whose \<open>get\<close> looks a name up without regard to case and returns the value or
  \<open>null\<close>. The object is modelled by its values under lower-case names.
\<close>

type_synonym headers = "string \<Rightarrow> string option"

record request =
  headers :: "headers option"

definition ascii_lower :: "char \<Rightarrow> char" where
  "ascii_lower c =
     (let n = (of_char c :: nat) in if 65 \<le> n \<and> n \<le> 90 then char_of (n + 32) else c)"

definition headers_get :: "headers \<Rightarrow> string \<Rightarrow> maybe_string" where
  "headers_get h name = (case h (map ascii_lower name) of None \<Rightarrow> Null | Some v \<Rightarrow> Str v)"

text \<open>One \<open>if (isIp(req.headers.get(name))) return req.headers.get(name);\<close> of the chain.\<close>

definition header_ip :: "headers \<Rightarrow> string \<Rightarrow> maybe_string option" where
  "header_ip h name =
     (if truthy (isIp (headers_get h name)) then Some (headers_get h name) else None)"

text \<open>
  The first \<open>if (req.headers)\<close> block; \<open>None\<close> when control falls out of the block
  without a \<open>return\<close>.
\<close>

definition proxy_headers :: "headers \<Rightarrow> (error + maybe_string) option" where
  "proxy_headers h =
     (case header_ip h ''x-client-ip'' of Some ip \<Rightarrow> Some (Inr ip) | None \<Rightarrow>
      (case getClientIpFromXForwardedFor (js (headers_get h ''x-forwarded-for'')) of
         Inl e \<Rightarrow> Some (Inl e)
       | Inr xForwardedFor \<Rightarrow>
      if truthy (isIp xForwardedFor) then Some (Inr xForwardedFor) else
      (case header_ip h ''cf-connecting-ip'' of Some ip \<Rightarrow> Some (Inr ip) | None \<Rightarrow>
      (case header_ip h ''do-connecting-ip'' of Some ip \<Rightarrow> Some (Inr ip) | None \<Rightarrow>
      (case header_ip h ''fastly-client-ip'' of Some ip \<Rightarrow> Some (Inr ip) | None \<Rightarrow>
      (case header_ip h ''true-client-ip'' of Some ip \<Rightarrow> Some (Inr ip) | None \<Rightarrow>
      (case header_ip h ''x-real-ip'' of Some ip \<Rightarrow> Some (Inr ip) | None \<Rightarrow>
      (case header_ip h ''x-cluster-client-ip'' of Some ip \<Rightarrow> Some (Inr ip) | None \<Rightarrow>
      (case header_ip h ''x-forwarded'' of Some ip \<Rightarrow> Some (Inr ip) | None \<Rightarrow>
      (case header_ip h ''forwarded-for'' of Some ip \<Rightarrow> Some (Inr ip) | None \<Rightarrow>
      (case header_ip h ''forwarded'' of Some ip \<Rightarrow> Some (Inr ip) | None \<Rightarrow>
      (case header_ip h ''x-appengine-user-ip'' of Some ip \<Rightarrow> Some (Inr ip) | None \<Rightarrow>
       None))))))))))))"

definition getClientIp :: "request \<Rightarrow> error + maybe_string" where
  "getClientIp req =
     (case (case headers req of None \<Rightarrow> None | Some h \<Rightarrow> proxy_headers h) of
        Some r \<Rightarrow> r
      | None \<Rightarrow>
          (case headers req of
             None \<Rightarrow> Inr Null
           | Some h \<Rightarrow>
               (case header_ip h ''Cf-Pseudo-IPv4'' of Some ip \<Rightarrow> Inr ip | None \<Rightarrow> Inr Null)))"

section \<open>Notions for the statements and proofs\<close>

definition move :: "string \<Rightarrow> mstate \<Rightarrow> mstate" where
  "move w x = x\<lparr>prev := (if w = [] then prev x else Some (last w)), rest := drop (length w) (rest x)\<rparr>"

definition recognises :: "matcher \<Rightarrow> string set \<Rightarrow> bool" where
  "recognises m L \<longleftrightarrow> (\<forall>x. set (m x) = {move w x | w. w \<in> L \<and> (\<exists>r. rest x = w @ r)})"

definition conc :: "string set \<Rightarrow> string set \<Rightarrow> string set" where
  "conc A B = {u @ v | u v. u \<in> A \<and> v \<in> B}"

fun lpow :: "string set \<Rightarrow> nat \<Rightarrow> string set" where
  "lpow L 0 = {[]}"
| "lpow L (Suc n) = conc L (lpow L n)"

definition class_chars :: "bool \<Rightarrow> string \<Rightarrow> char set" where
  "class_chars ic ms = {c. \<exists>a\<in>set ms. canonicalize ic a = canonicalize ic c}"

definition digit_char :: "nat \<Rightarrow> char" where
  "digit_char d = ''0123456789'' ! d"

function dec :: "nat \<Rightarrow> string" where
  "dec n = (if n < 10 then [digit_char n] else dec (n div 10) @ [digit_char (n mod 10)])"
  by pat_completeness auto

termination
  by (relation "measure id") auto

declare dec.simps [simp del]

definition chars :: "char set \<Rightarrow> string set" where
  "chars S = {[c] | c. c \<in> S}"

definition digit_val :: "char \<Rightarrow> nat" where
  "digit_val c = of_char c - 48"

definition octet_lang :: "string set" where
  "octet_lang =
     chars (set ''0123456789'') \<union>
     (conc (chars (set ''123456789'')) (chars (set ''0123456789'')) \<union>
      (conc (chars {CHR ''1''}) (lpow (chars (set ''0123456789'')) 2) \<union>
       (conc (chars {CHR ''2''}) (conc (chars (set ''01234'')) (chars (set ''0123456789''))) \<union>
        conc (chars {CHR ''2''}) (conc (chars {CHR ''5''}) (chars (set ''012345''))))))"

fun join :: "char \<Rightarrow> string list \<Rightarrow> string" where
  "join sep [] = []"
| "join sep [t] = t"
| "join sep (t # ts) = t @ sep # join sep ts"

definition dotted :: "nat list \<Rightarrow> string" where
  "dotted ns = join CHR ''.'' (map dec ns)"

definition ipv4_lang :: "string set" where
  "ipv4_lang = conc (lpow (conc octet_lang (chars {CHR ''.''})) 3) octet_lang"

definition emits :: "((nat \<Rightarrow> string option) \<Rightarrow> bool) \<Rightarrow> matcher \<Rightarrow> (string \<Rightarrow> bool) \<Rightarrow> bool" where
  "emits I m Q \<longleftrightarrow>
     (\<forall>x y. I (caps x) \<longrightarrow> y \<in> set (m x) \<longrightarrow>
        I (caps y) \<and>
        (\<exists>w. Q w \<and> rest x = w @ rest y \<and> prev y = (if w = [] then prev x else Some (last w))))"

definition digits :: "char set" where
  "digits = set ''0123456789''"

text \<open>
  The precedence chain as the specification words it: an ordered table of header
  names, each with its way of yielding an address, evaluated in sequence with early
  exit.
\<close>

definition spec_priority_order :: "string list" where
  "spec_priority_order =
     [''x-client-ip'', ''x-forwarded-for'', ''cf-connecting-ip'', ''do-connecting-ip'',
      ''fastly-client-ip'', ''true-client-ip'', ''x-real-ip'', ''x-cluster-client-ip'',
      ''x-forwarded'', ''forwarded-for'', ''forwarded'', ''x-appengine-user-ip'',
      ''cf-pseudo-ipv4'']"

definition spec_candidate :: "headers \<Rightarrow> string \<Rightarrow> maybe_string option" where
  "spec_candidate h name =
     (if name = ''x-forwarded-for''
      then (case getClientIpFromXForwardedFor (js (headers_get h name)) of
              Inr (Str ip) \<Rightarrow> Some (Str ip)
            | _ \<Rightarrow> None)
      else if truthy (isIp (headers_get h name)) then Some (headers_get h name) else None)"

fun spec_first :: "headers \<Rightarrow> string list \<Rightarrow> maybe_string option" where
  "spec_first h [] = None"
| "spec_first h (name # names) =
     (case spec_candidate h name of Some ip \<Rightarrow> Some ip | None \<Rightarrow> spec_first h names)"

definition spec_resolve :: "headers \<Rightarrow> maybe_string" where
  "spec_resolve h = (case spec_first h spec_priority_order of Some ip \<Rightarrow> ip | None \<Rightarrow> Null)"

definition num_val :: "string \<Rightarrow> nat" where
  "num_val w = foldl (\<lambda>v c. 10 * v + digit_val c) 0 w"

section \<open>Matchers as languages\<close>

lemma move_Nil [simp]: "move [] x = x"
  by (simp add: move_def)

lemma rest_move [simp]: "rest (move w x) = drop (length w) (rest x)"
  by (simp add: move_def)

lemma caps_move [simp]: "caps (move w x) = caps x"
  by (simp add: move_def)

lemma prev_move [simp]: "prev (move w x) = (if w = [] then prev x else Some (last w))"
  by (simp add: move_def)

lemma move_append: "move (u @ v) x = move v (move u x)"
  by (simp add: move_def add.commute)

lemma advance_move: "rest x = c # cs \<Longrightarrow> advance (Suc 0) x = move [c] x"
  by (simp add: advance_def move_def)

lemma clear_caps_Nil [simp]: "clear_caps [] x = x"
  by (simp add: clear_caps_def)

lemma m_class_Nil: "rest x = [] \<Longrightarrow> m_class ic ms x = []"
  by (simp add: m_class_def)

lemma m_class_Cons:
  "rest x = c # cs \<Longrightarrow> m_class ic ms x = (if c \<in> class_chars ic ms then [move [c] x] else [])"
  by (simp add: m_class_def list_ex_iff class_chars_def advance_move)

lemma recognises_class: "recognises (m_class ic ms) {[c] | c. c \<in> class_chars ic ms}"
  unfolding recognises_def
proof
  fix x
  show "set (m_class ic ms x) = {move w x | w. w \<in> {[c] | c. c \<in> class_chars ic ms} \<and> (\<exists>r. rest x = w @ r)}"
  proof (cases "rest x")
    case Nil
    then show ?thesis by (auto simp: m_class_Nil)
  next
    case (Cons c cs)
    have "{move w x | w. w \<in> {[c] | c. c \<in> class_chars ic ms} \<and> (\<exists>r. rest x = w @ r)}
          = (if c \<in> class_chars ic ms then {move [c] x} else {})"
      using Cons by auto
    then show ?thesis using Cons by (simp add: m_class_Cons)
  qed
qed

lemma recognises_char: "recognises (m_char ic c) {[d] | d. d \<in> class_chars ic [c]}"
  unfolding m_char_def by (rule recognises_class)

lemma recognises_seq:
  assumes "recognises a A" and "recognises b B"
  shows "recognises (m_seq a b) (conc A B)"
  unfolding recognises_def
proof
  fix x
  have "set (m_seq a b x) = (\<Union>y\<in>set (a x). set (b y))"
    by (simp add: m_seq_def)
  also have "\<dots> = {move w x | w. w \<in> conc A B \<and> (\<exists>r. rest x = w @ r)}"
  proof (intro set_eqI iffI)
    fix z assume "z \<in> (\<Union>y\<in>set (a x). set (b y))"
    then obtain y where y: "y \<in> set (a x)" and z: "z \<in> set (b y)" by blast
    from y assms(1) obtain u r where u: "u \<in> A" "rest x = u @ r" "y = move u x"
      unfolding recognises_def by blast
    from z assms(2) obtain v r' where v: "v \<in> B" "rest y = v @ r'" "z = move v y"
      unfolding recognises_def by blast
    have "rest x = (u @ v) @ r'" using u v by simp
    moreover have "z = move (u @ v) x" using u v by (simp add: move_append)
    moreover have "u @ v \<in> conc A B" using u v by (auto simp: conc_def)
    ultimately show "z \<in> {move w x | w. w \<in> conc A B \<and> (\<exists>r. rest x = w @ r)}" by blast
  next
    fix z assume "z \<in> {move w x | w. w \<in> conc A B \<and> (\<exists>r. rest x = w @ r)}"
    then obtain u v r where uv: "u \<in> A" "v \<in> B" "rest x = (u @ v) @ r" "z = move (u @ v) x"
      by (auto simp: conc_def)
    have "move u x \<in> set (a x)" using assms(1) uv unfolding recognises_def by auto
    moreover have "rest (move u x) = v @ r" using uv by simp
    then have "move v (move u x) \<in> set (b (move u x))" using assms(2) uv unfolding recognises_def by blast
    ultimately show "z \<in> (\<Union>y\<in>set (a x). set (b y))" using uv by (auto simp: move_append)
  qed
  finally show "set (m_seq a b x) = {move w x | w. w \<in> conc A B \<and> (\<exists>r. rest x = w @ r)}" .
qed

lemma recognises_alt:
  assumes "recognises a A" and "recognises b B"
  shows "recognises (m_alt a b) (A \<union> B)"
  using assms unfolding recognises_def m_alt_def by auto

lemma m_repeat_exact_0: "m_repeat m ps 0 (Some 0) x = [x]"
  by (simp add: m_repeat.simps)

lemma m_repeat_exact_Suc:
  "m_repeat m ps (Suc n) (Some (Suc n)) x = m_seq (\<lambda>x. m (clear_caps ps x)) (m_repeat m ps n (Some n)) x"
  by (subst m_repeat.simps) (simp add: m_seq_def)

lemma recognises_empty: "recognises m_empty {[]}"
  by (auto simp: recognises_def m_empty_def)

lemma recognises_repeat_exact:
  assumes "recognises m L"
  shows "recognises (m_repeat m [] n (Some n)) (lpow L n)"
proof (induction n)
  case 0
  have "m_repeat m [] 0 (Some 0) = m_empty"
    by (rule ext) (simp add: m_repeat_exact_0 m_empty_def)
  then show ?case by (simp add: recognises_empty)
next
  case (Suc n)
  have "m_repeat m [] (Suc n) (Some (Suc n)) = m_seq m (m_repeat m [] n (Some n))"
    by (rule ext) (simp add: m_repeat_exact_Suc m_seq_def)
  then show ?case using recognises_seq [OF assms Suc] by simp
qed

lemma canonicalize_False [simp]: "canonicalize False c = of_char c"
  by (simp add: canonicalize_def)

lemma class_chars_False [simp]: "class_chars False ms = set ms"
  by (auto simp: class_chars_def)

lemma recognises_class_False: "recognises (m_class False ms) (chars (set ms))"
  using recognises_class [of False ms] by (simp add: chars_def)

lemma recognises_char_False: "recognises (m_char False c) (chars {c})"
  using recognises_class_False [of "[c]"] by (simp add: m_char_def)

lemma less10_cases:
  "(k::nat) < 10 \<Longrightarrow> k = 0 \<or> k = 1 \<or> k = 2 \<or> k = 3 \<or> k = 4 \<or> k = 5 \<or> k = 6 \<or> k = 7 \<or> k = 8 \<or> k = 9"
  by arith

lemma digit_char_in: "k < 10 \<Longrightarrow> digit_char k \<in> set ''0123456789''"
  using less10_cases [of k] by (auto simp: digit_char_def)

lemma digit_val_char: "k < 10 \<Longrightarrow> digit_val (digit_char k) = k"
  using less10_cases [of k] by (auto simp: digit_char_def digit_val_def)

lemma digit_char_val: "c \<in> set ''0123456789'' \<Longrightarrow> digit_char (digit_val c) = c \<and> digit_val c < 10"
  by (auto simp: digit_char_def digit_val_def)

lemma set19: "c \<in> set ''123456789'' \<longleftrightarrow> c \<in> set ''0123456789'' \<and> 1 \<le> digit_val c"
  by (auto simp: digit_val_def)

lemma set04: "c \<in> set ''01234'' \<longleftrightarrow> c \<in> set ''0123456789'' \<and> digit_val c \<le> 4"
  by (auto simp: digit_val_def)

lemma set05: "c \<in> set ''012345'' \<longleftrightarrow> c \<in> set ''0123456789'' \<and> digit_val c \<le> 5"
  by (auto simp: digit_val_def)

lemma dec_1: "n < 10 \<Longrightarrow> dec n = [digit_char n]"
  by (simp add: dec.simps)

lemma dec_snoc: "k < 10 \<Longrightarrow> 0 < m \<Longrightarrow> dec (10 * m + k) = dec m @ [digit_char k]"
  by (subst dec.simps) simp

lemma dec_2: "k < 10 \<Longrightarrow> 0 < j \<Longrightarrow> j < 10 \<Longrightarrow> dec (10 * j + k) = [digit_char j, digit_char k]"
  by (simp add: dec_snoc dec_1)

lemma dec_3:
  "k < 10 \<Longrightarrow> j < 10 \<Longrightarrow> 0 < i \<Longrightarrow> i < 10 \<Longrightarrow>
   dec (10 * (10 * i + j) + k) = [digit_char i, digit_char j, digit_char k]"
proof -
  assume a: "k < 10" "j < 10" "0 < i" "i < 10"
  have "dec (10 * (10 * i + j) + k) = dec (10 * i + j) @ [digit_char k]"
    using a by (intro dec_snoc) simp_all
  also have "dec (10 * i + j) = [digit_char i, digit_char j]"
    using a by (intro dec_2)
  finally show ?thesis by simp
qed

lemma nat_digits:
  obtains q r where "(n::nat) = 10 * q + r" and "r < 10"
proof
  show "n = 10 * (n div 10) + n mod 10" by simp
  show "n mod 10 < 10" by simp
qed

lemma recognises_ipv4_octet: "recognises ipv4_octet octet_lang"
  unfolding octet_lang_def ipv4_octet_def digit_def m_alts.simps m_seqs.simps
  by (intro recognises_alt recognises_seq recognises_class_False recognises_char_False
        recognises_repeat_exact)

lemma in_chars: "w \<in> chars S \<longleftrightarrow> (\<exists>c\<in>S. w = [c])"
  by (auto simp: chars_def)

lemma in_conc_chars: "w \<in> conc (chars S) B \<longleftrightarrow> (\<exists>c\<in>S. \<exists>v\<in>B. w = c # v)"
proof
  assume "w \<in> conc (chars S) B"
  then show "\<exists>c\<in>S. \<exists>v\<in>B. w = c # v" by (auto simp: conc_def chars_def)
next
  assume "\<exists>c\<in>S. \<exists>v\<in>B. w = c # v"
  then obtain c v where "c \<in> S" "v \<in> B" "w = [c] @ v" by auto
  then show "w \<in> conc (chars S) B" unfolding conc_def chars_def by blast
qed

lemma bex_chars: "(\<exists>v\<in>chars S. P v) \<longleftrightarrow> (\<exists>c\<in>S. P [c])"
  by (auto simp: chars_def)

lemma bex_conc_chars: "(\<exists>v\<in>conc (chars S) B. P v) \<longleftrightarrow> (\<exists>c\<in>S. \<exists>v\<in>B. P (c # v))"
  by (metis in_conc_chars)

lemma conc_unit [simp]: "conc A {[]} = A"
  by (auto simp: conc_def)

lemma lpow_2: "lpow L 2 = conc L L"
  by (simp add: numeral_2_eq_2)

lemma octet_lang_words:
  "w \<in> octet_lang \<longleftrightarrow>
     (\<exists>d\<in>set ''0123456789''. w = [d]) \<or>
     (\<exists>a\<in>set ''123456789''. \<exists>d\<in>set ''0123456789''. w = [a, d]) \<or>
     (\<exists>d\<in>set ''0123456789''. \<exists>e\<in>set ''0123456789''. w = [CHR ''1'', d, e]) \<or>
     (\<exists>a\<in>set ''01234''. \<exists>d\<in>set ''0123456789''. w = [CHR ''2'', a, d]) \<or>
     (\<exists>a\<in>set ''012345''. w = [CHR ''2'', CHR ''5'', a])"
  unfolding octet_lang_def lpow_2
  by (simp only: Un_iff in_chars in_conc_chars bex_chars bex_conc_chars bex_simps
        singleton_iff simp_thms)

lemma octet_lang_dec: "octet_lang = {dec n | n. n \<le> 255}"
proof (intro set_eqI iffI)
  fix w assume "w \<in> octet_lang"
  then consider
      (a) d where "d \<in> set ''0123456789''" "w = [d]"
    | (b) a d where "a \<in> set ''123456789''" "d \<in> set ''0123456789''" "w = [a, d]"
    | (c) d e where "d \<in> set ''0123456789''" "e \<in> set ''0123456789''" "w = [CHR ''1'', d, e]"
    | (d) a d where "a \<in> set ''01234''" "d \<in> set ''0123456789''" "w = [CHR ''2'', a, d]"
    | (e) a where "a \<in> set ''012345''" "w = [CHR ''2'', CHR ''5'', a]"
    unfolding octet_lang_words by blast
  then have "\<exists>n\<le>255. w = dec n"
  proof cases
    case a
    then have "w = dec (digit_val d)" "digit_val d \<le> 255"
      using digit_char_val [OF a(1)] by (simp_all add: dec_1)
    then show ?thesis by blast
  next
    case b
    let ?n = "10 * digit_val a + digit_val d"
    from b(1) have a10: "a \<in> set ''0123456789''" and a1: "1 \<le> digit_val a"
      unfolding set19 by blast+
    have A: "digit_char (digit_val a) = a" "digit_val a < 10" "0 < digit_val a"
      using digit_char_val [OF a10] a1 by auto
    have D: "digit_char (digit_val d) = d" "digit_val d < 10"
      using digit_char_val [OF b(2)] by blast+
    have "dec ?n = [a, d]" using A D by (simp add: dec_2)
    moreover have "?n \<le> 255" using A D by simp
    ultimately show ?thesis using b(3) by metis
  next
    case c
    let ?n = "10 * (10 * 1 + digit_val d) + digit_val e"
    have D: "digit_char (digit_val d) = d" "digit_val d < 10"
      using digit_char_val [OF c(1)] by blast+
    have E: "digit_char (digit_val e) = e" "digit_val e < 10"
      using digit_char_val [OF c(2)] by blast+
    have one: "digit_char 1 = CHR ''1''" by (simp add: digit_char_def)
    have "dec ?n = [digit_char 1, digit_char (digit_val d), digit_char (digit_val e)]"
      using D E by (intro dec_3) simp_all
    then have "dec ?n = w" using D E c(3) one by simp
    moreover have "?n \<le> 255" using D E by simp
    ultimately show ?thesis by metis
  next
    case d
    let ?n = "10 * (10 * 2 + digit_val a) + digit_val d"
    from d(1) have a10: "a \<in> set ''0123456789''" and a4: "digit_val a \<le> 4"
      unfolding set04 by blast+
    have A: "digit_char (digit_val a) = a" "digit_val a \<le> 4" "digit_val a < 10"
      using digit_char_val [OF a10] a4 by blast+
    have D: "digit_char (digit_val d) = d" "digit_val d < 10"
      using digit_char_val [OF d(2)] by blast+
    have two: "digit_char 2 = CHR ''2''" by (simp add: digit_char_def)
    have "dec ?n = [digit_char 2, digit_char (digit_val a), digit_char (digit_val d)]"
      using A D by (intro dec_3) simp_all
    then have "dec ?n = w" using A D d(3) two by simp
    moreover have "?n \<le> 255" using A D by simp
    ultimately show ?thesis by metis
  next
    case e
    let ?n = "10 * (10 * 2 + 5) + digit_val a"
    from e(1) have a10: "a \<in> set ''0123456789''" and a5: "digit_val a \<le> 5"
      unfolding set05 by blast+
    have A: "digit_char (digit_val a) = a" "digit_val a \<le> 5" "digit_val a < 10"
      using digit_char_val [OF a10] a5 by blast+
    have two: "digit_char 2 = CHR ''2''" "digit_char 5 = CHR ''5''" by (simp_all add: digit_char_def)
    have "dec ?n = [digit_char 2, digit_char 5, digit_char (digit_val a)]"
      using A by (intro dec_3) simp_all
    then have "dec ?n = w" using A e(2) two by simp
    moreover have "?n \<le> 255" using A by simp
    ultimately show ?thesis by metis
  qed
  then show "w \<in> {dec n | n. n \<le> 255}" by blast
next
  fix w assume "w \<in> {dec n | n. n \<le> 255}"
  then obtain n where n: "n \<le> 255" "w = dec n" by blast
  have in10: "\<And>k. k < 10 \<Longrightarrow> digit_char k \<in> set ''0123456789''" by (rule digit_char_in)
  obtain q k where qk: "n = 10 * q + k" "k < 10" by (rule nat_digits)
  obtain i j where ij: "q = 10 * i + j" "j < 10" by (rule nat_digits)
  have K: "digit_char k \<in> set ''0123456789''" using qk by (intro in10)
  have J: "digit_char j \<in> set ''0123456789''" using ij by (intro in10)
  have bound: "100 * i + 10 * j + k \<le> 255" using n qk ij by simp
  have ilt: "i < 10" using bound by simp
  have wn: "w = dec (10 * (10 * i + j) + k)" using n qk ij by simp
  have "0 < i \<Longrightarrow> dec (10 * (10 * i + j) + k) = [digit_char i, digit_char j, digit_char k]"
    using qk ij ilt by (intro dec_3)
  then have w3: "0 < i \<Longrightarrow> w = [digit_char i, digit_char j, digit_char k]"
    using wn by (simp only:)
  consider "i = 0" "j = 0" | "i = 0" "0 < j" | "i = 1" | "i = 2" "j \<le> 4" | "i = 2" "j = 5" "k \<le> 5"
    using bound ij qk by linarith
  then show "w \<in> octet_lang"
  proof cases
    case 1
    then have "w = [digit_char k]" using n qk ij by (simp add: dec_1)
    then show ?thesis using K unfolding octet_lang_words by blast
  next
    case 2
    then have "w = [digit_char j, digit_char k]" using n qk ij by (simp add: dec_2)
    moreover have "digit_char j \<in> set ''123456789''"
      unfolding set19 using J 2 ij by (simp add: digit_val_char)
    ultimately show ?thesis using K unfolding octet_lang_words by blast
  next
    case 3
    then have "w = [digit_char 1, digit_char j, digit_char k]" using w3 by simp
    moreover have "digit_char 1 = CHR ''1''" by (simp add: digit_char_def)
    ultimately show ?thesis using K J unfolding octet_lang_words by metis
  next
    case 4
    then have "w = [digit_char 2, digit_char j, digit_char k]" using w3 by simp
    moreover have "digit_char 2 = CHR ''2''" by (simp add: digit_char_def)
    moreover have "digit_char j \<in> set ''01234''"
      unfolding set04 using J 4 ij by (simp add: digit_val_char)
    ultimately show ?thesis using K unfolding octet_lang_words by metis
  next
    case 5
    then have "w = [digit_char 2, digit_char 5, digit_char k]" using w3 by simp
    moreover have "digit_char 2 = CHR ''2''" "digit_char 5 = CHR ''5''" by (simp_all add: digit_char_def)
    moreover have "digit_char k \<in> set ''012345''"
      unfolding set05 using K 5 qk by (simp add: digit_val_char)
    ultimately show ?thesis unfolding octet_lang_words by metis
  qed
qed

lemma concat_map_concat: "concat (map f (concat xss)) = concat (map (\<lambda>xs. concat (map f xs)) xss)"
  by (induction xss) auto

lemma m_seq_assoc: "m_seq a (m_seq b c) = m_seq (m_seq a b) c"
  by (rule ext) (simp add: m_seq_def [abs_def] concat_map_concat comp_def)

lemma m_seq_bol_Some: "prev x = Some c \<Longrightarrow> m_seq m_bol m x = []"
  by (simp add: m_seq_def m_bol_def)

lemma m_seq_bol_None: "prev x = None \<Longrightarrow> m_seq m_bol m x = m x"
  by (simp add: m_seq_def m_bol_def)

lemma test_from_bol_Some: "\<not> test_from (m_seq m_bol m) (Some c) s"
  by (induction s arbitrary: c) (simp_all add: m_seq_bol_Some start_state_def)

lemma regex_test_anchored: "regex_test (m_seq m_bol m) s \<longleftrightarrow> m (start_state None s) \<noteq> []"
  by (cases s) (simp_all add: regex_test_def test_from_bol_Some m_seq_bol_None start_state_def)

lemma recognises_then_eol:
  assumes "recognises a A"
  shows "m_seq a m_eol x \<noteq> [] \<longleftrightarrow> rest x \<in> A"
proof -
  have nonempty: "m_seq a m_eol x \<noteq> [] \<longleftrightarrow> (\<exists>y\<in>set (a x). rest y = [])"
    by (auto simp: m_seq_def m_eol_def)
  have results: "set (a x) = {move w x | w. w \<in> A \<and> (\<exists>r. rest x = w @ r)}"
    using assms unfolding recognises_def by blast
  show ?thesis
  proof
    assume "m_seq a m_eol x \<noteq> []"
    then obtain y where "y \<in> set (a x)" "rest y = []" using nonempty by blast
    then obtain w r where "w \<in> A" "rest x = w @ r" "drop (length w) (rest x) = []"
      unfolding results by auto
    then show "rest x \<in> A" by simp
  next
    assume "rest x \<in> A"
    then have "move (rest x) x \<in> set (a x)" unfolding results by auto
    moreover have "rest (move (rest x) x) = []" by simp
    ultimately show "m_seq a m_eol x \<noteq> []" using nonempty by blast
  qed
qed

lemma regex_test_ipv4_lang: "regex_test ipv4 s \<longleftrightarrow> s \<in> ipv4_lang"
proof -
  let ?R = "m_repeat (m_seq ipv4_octet (m_char False CHR ''.'')) [] 3 (Some 3)"
  have eq: "ipv4 = m_seq m_bol (m_seq (m_seq ?R ipv4_octet) m_eol)"
    by (simp add: ipv4_def m_seq_assoc)
  have "recognises (m_seq ?R ipv4_octet) ipv4_lang"
    unfolding ipv4_lang_def
    by (intro recognises_seq recognises_repeat_exact recognises_ipv4_octet recognises_char_False)
  then show ?thesis
    unfolding eq regex_test_anchored by (simp add: recognises_then_eol start_state_def)
qed

lemma lpow_3: "lpow L 3 = conc L (conc L L)"
  by (simp add: numeral_3_eq_3)

lemma in_conc: "w \<in> conc A B \<longleftrightarrow> (\<exists>u\<in>A. \<exists>v\<in>B. w = u @ v)"
  by (auto simp: conc_def)

lemma bex_conc: "(\<exists>w\<in>conc A B. P w) \<longleftrightarrow> (\<exists>u\<in>A. \<exists>v\<in>B. P (u @ v))"
  by (auto simp: conc_def)

lemma ipv4_lang_dotted:
  "s \<in> ipv4_lang \<longleftrightarrow>
     (\<exists>a b c d. a \<le> 255 \<and> b \<le> 255 \<and> c \<le> 255 \<and> d \<le> 255 \<and> s = dotted [a, b, c, d])"
proof -
  have "s \<in> ipv4_lang \<longleftrightarrow>
      (\<exists>w1\<in>octet_lang. \<exists>w2\<in>octet_lang. \<exists>w3\<in>octet_lang. \<exists>w4\<in>octet_lang.
         s = w1 @ CHR ''.'' # w2 @ CHR ''.'' # w3 @ CHR ''.'' # w4)"
    unfolding ipv4_lang_def lpow_3
    by (simp add: in_conc bex_conc bex_chars)
  also have "\<dots> \<longleftrightarrow>
      (\<exists>a b c d. a \<le> 255 \<and> b \<le> 255 \<and> c \<le> 255 \<and> d \<le> 255 \<and> s = dotted [a, b, c, d])"
    unfolding octet_lang_dec dotted_def by (simp add: Bex_def) blast
  finally show ?thesis .
qed

section \<open>What a matcher consumes\<close>

lemma emitsI:
  assumes "\<And>x y. I (caps x) \<Longrightarrow> y \<in> set (m x) \<Longrightarrow>
     I (caps y) \<and> (\<exists>w. Q w \<and> rest x = w @ rest y \<and> prev y = (if w = [] then prev x else Some (last w)))"
  shows "emits I m Q"
  using assms unfolding emits_def by blast

lemma emitsD:
  assumes "emits I m Q" and "I (caps x)" and "y \<in> set (m x)"
  obtains w where "Q w" and "rest x = w @ rest y"
    and "prev y = (if w = [] then prev x else Some (last w))" and "I (caps y)"
  using assms unfolding emits_def by blast

lemma emits_concl:
  "I c \<Longrightarrow> Q w \<Longrightarrow> rx = w @ ry \<Longrightarrow> py = (if w = [] then px else Some (last w)) \<Longrightarrow>
   I c \<and> (\<exists>w. Q w \<and> rx = w @ ry \<and> py = (if w = [] then px else Some (last w)))"
  by blast

lemma emits_weaken: "emits I m Q \<Longrightarrow> (\<And>w. Q w \<Longrightarrow> Q' w) \<Longrightarrow> emits I m Q'"
  unfolding emits_def by blast

lemma emits_class: "emits I (m_class ic ms) (\<lambda>w. \<exists>c\<in>class_chars ic ms. w = [c])"
proof (rule emitsI)
  fix x y assume I: "I (caps x)" and y: "y \<in> set (m_class ic ms x)"
  show "I (caps y) \<and> (\<exists>w. (\<exists>c\<in>class_chars ic ms. w = [c]) \<and> rest x = w @ rest y \<and>
          prev y = (if w = [] then prev x else Some (last w)))"
  proof (cases "rest x")
    case Nil
    then show ?thesis using y by (simp add: m_class_Nil)
  next
    case (Cons c cs)
    then have "c \<in> class_chars ic ms" and "y = move [c] x"
      using y by (auto simp: m_class_Cons split: if_splits)
    then show ?thesis using I Cons by (intro conjI exI [of _ "[c]"]) auto
  qed
qed

lemma emits_char: "emits I (m_char ic c) (\<lambda>w. \<exists>d\<in>class_chars ic [c]. w = [d])"
  unfolding m_char_def by (rule emits_class)

lemma emits_dot: "emits I m_dot (\<lambda>w. length w = 1)"
proof (rule emitsI)
  fix x y assume I: "I (caps x)" and y: "y \<in> set (m_dot x)"
  show "I (caps y) \<and> (\<exists>w. length w = 1 \<and> rest x = w @ rest y \<and>
          prev y = (if w = [] then prev x else Some (last w)))"
  proof (cases "rest x")
    case Nil
    then show ?thesis using y by (simp add: m_dot_def)
  next
    case (Cons c cs)
    then have "y = move [c] x"
      using y by (auto simp: m_dot_def advance_move split: if_splits)
    then show ?thesis using I Cons by (intro conjI exI [of _ "[c]"]) auto
  qed
qed

lemma emits_assert:
  assumes "\<And>x. set (m x) \<subseteq> {x}"
  shows "emits I m (\<lambda>w. w = [])"
proof (rule emitsI)
  fix x y assume "I (caps x)" and "y \<in> set (m x)"
  then have "y = x" using assms by blast
  then show "I (caps y) \<and> (\<exists>w. w = [] \<and> rest x = w @ rest y \<and>
          prev y = (if w = [] then prev x else Some (last w)))"
    using \<open>I (caps x)\<close> by simp
qed

lemma emits_empty: "emits I m_empty (\<lambda>w. w = [])"
  by (rule emits_assert) (auto simp: m_empty_def)

lemma emits_bol: "emits I m_bol (\<lambda>w. w = [])"
  by (rule emits_assert) (auto simp: m_bol_def)

lemma emits_eol: "emits I m_eol (\<lambda>w. w = [])"
  by (rule emits_assert) (auto simp: m_eol_def)

lemma emits_word_boundary: "emits I m_word_boundary (\<lambda>w. w = [])"
  by (rule emits_assert) (auto simp: m_word_boundary_def Let_def)

lemma emits_not_lookahead: "emits I (m_not_lookahead m) (\<lambda>w. w = [])"
  by (rule emits_assert) (auto simp: m_not_lookahead_def)

lemma emits_lookahead:
  assumes "emits I m Q"
  shows "emits I (m_lookahead m) (\<lambda>w. w = [])"
proof (rule emitsI)
  fix x y assume I: "I (caps x)" and y: "y \<in> set (m_lookahead m x)"
  obtain z zs where mx: "m x = z # zs"
    using y by (cases "m x") (auto simp: m_lookahead_def)
  then have z: "m x = z # zs" "y = x\<lparr>caps := caps z\<rparr>"
    using y by (simp_all add: m_lookahead_def)
  then have "z \<in> set (m x)" by simp
  then have "I (caps z)" using assms I unfolding emits_def by blast
  then show "I (caps y) \<and> (\<exists>w. w = [] \<and> rest x = w @ rest y \<and>
          prev y = (if w = [] then prev x else Some (last w)))"
    using z by simp
qed

lemma emits_seq:
  assumes "emits I a A" and "emits I b B"
  shows "emits I (m_seq a b) (\<lambda>w. \<exists>u v. w = u @ v \<and> A u \<and> B v)"
proof (rule emitsI)
  fix x z assume I: "I (caps x)" and "z \<in> set (m_seq a b x)"
  then obtain y where y: "y \<in> set (a x)" and z: "z \<in> set (b y)"
    by (auto simp: m_seq_def)
  from assms(1) I y obtain u where u: "A u" "rest x = u @ rest y"
      "prev y = (if u = [] then prev x else Some (last u))" "I (caps y)"
    by (rule emitsD)
  from assms(2) u(4) z obtain v where v: "B v" "rest y = v @ rest z"
      "prev z = (if v = [] then prev y else Some (last v))" "I (caps z)"
    by (rule emitsD)
  have "rest x = (u @ v) @ rest z" using u v by simp
  moreover have "prev z = (if u @ v = [] then prev x else Some (last (u @ v)))"
    using u v by simp
  moreover have "\<exists>u' v'. u @ v = u' @ v' \<and> A u' \<and> B v'" using u(1) v(1) by blast
  ultimately show "I (caps z) \<and> (\<exists>w. (\<exists>u v. w = u @ v \<and> A u \<and> B v) \<and> rest x = w @ rest z \<and>
          prev z = (if w = [] then prev x else Some (last w)))"
    using v(4) by (intro emits_concl [where w = "u @ v"])
qed

lemma emits_alt:
  assumes "emits I a A" and "emits I b B"
  shows "emits I (m_alt a b) (\<lambda>w. A w \<or> B w)"
proof (rule emitsI)
  fix x y assume I: "I (caps x)" and "y \<in> set (m_alt a b x)"
  then consider "y \<in> set (a x)" | "y \<in> set (b x)" by (auto simp: m_alt_def)
  then show "I (caps y) \<and> (\<exists>w. (A w \<or> B w) \<and> rest x = w @ rest y \<and>
          prev y = (if w = [] then prev x else Some (last w)))"
  proof cases
    case 1
    from assms(1) I 1 obtain w where "A w" "rest x = w @ rest y"
      "prev y = (if w = [] then prev x else Some (last w))" "I (caps y)" by (rule emitsD)
    then show ?thesis by (intro conjI exI [of _ w]) simp_all
  next
    case 2
    from assms(2) I 2 obtain w where "B w" "rest x = w @ rest y"
      "prev y = (if w = [] then prev x else Some (last w))" "I (caps y)" by (rule emitsD)
    then show ?thesis by (intro conjI exI [of _ w]) simp_all
  qed
qed

lemma emits_group:
  assumes "emits I m Q" and "\<And>c t. I c \<Longrightarrow> I (c(n \<mapsto> t))"
  shows "emits I (m_group n m) Q"
proof (rule emitsI)
  fix x y assume I: "I (caps x)" and "y \<in> set (m_group n m x)"
  then obtain z where z: "z \<in> set (m x)" and y: "y = z\<lparr>caps := (caps z)(n \<mapsto> consumed x z)\<rparr>"
    by (auto simp: m_group_def)
  from assms(1) I z obtain w where w: "Q w" "rest x = w @ rest z"
      "prev z = (if w = [] then prev x else Some (last w))" "I (caps z)"
    by (rule emitsD)
  have "I (caps y)" using y assms(2) [OF w(4)] by simp
  moreover have "rest y = rest z" "prev y = prev z" using y by simp_all
  ultimately show "I (caps y) \<and> (\<exists>w. Q w \<and> rest x = w @ rest y \<and>
          prev y = (if w = [] then prev x else Some (last w)))"
    using w by (intro conjI exI [of _ w]) simp_all
qed

lemma emits_backref: "emits I (m_backref ic n) (\<lambda>w. True)"
proof (rule emitsI)
  fix x y assume I: "I (caps x)" and y: "y \<in> set (m_backref ic n x)"
  show "I (caps y) \<and> (\<exists>w. True \<and> rest x = w @ rest y \<and>
          prev y = (if w = [] then prev x else Some (last w)))"
  proof (cases "caps x n")
    case None
    then have "y = x" using y by (simp add: m_backref_def)
    then show ?thesis using I by simp
  next
    case (Some t)
    then have len: "length t \<le> length (rest x)" and yx: "y = advance (length t) x"
      using y by (auto simp: m_backref_def split: if_splits)
    let ?w = "take (length t) (rest x)"
    have "rest x = ?w @ rest y" using yx by (simp add: advance_def)
    moreover have "prev y = (if ?w = [] then prev x else Some (last ?w))"
      using yx len by (auto simp: advance_def last_conv_nth min_def)
    moreover have "I (caps y)" using yx I by (simp add: advance_def)
    ultimately show ?thesis by blast
  qed
qed

lemma m_repeat_done: "m_repeat m ps lo (Some 0) x = [x]"
  by (subst m_repeat.simps) simp

lemma m_repeat_more:
  "hi \<noteq> Some 0 \<Longrightarrow> lo \<noteq> 0 \<Longrightarrow>
   m_repeat m ps lo hi x =
     concat (map (m_repeat m ps (lo - 1) (dec_max hi)) (m (clear_caps ps x)))"
  by (subst m_repeat.simps) simp

lemma m_repeat_opt:
  "hi \<noteq> Some 0 \<Longrightarrow>
   m_repeat m ps 0 hi x =
     concat (map (m_repeat m ps 0 (dec_max hi))
       (filter (\<lambda>y. length (rest y) < length (rest x)) (m (clear_caps ps x)))) @ [x]"
  by (subst m_repeat.simps) simp

lemma emits_repeat_aux:
  assumes nil: "Q []"
    and app: "\<And>u v. Q u \<Longrightarrow> Q v \<Longrightarrow> Q (u @ v)"
  shows "emits I m Q \<Longrightarrow> (\<And>c. I c \<Longrightarrow> I (\<lambda>n. if n \<in> set ps then None else c n)) \<Longrightarrow>
     I (caps x) \<Longrightarrow> y \<in> set (m_repeat m ps lo hi x) \<Longrightarrow>
     I (caps y) \<and> (\<exists>w. Q w \<and> rest x = w @ rest y \<and> prev y = (if w = [] then prev x else Some (last w)))"
proof (induction m ps lo hi x arbitrary: y rule: m_repeat.induct)
  case (1 m ps lo hi x)
  note m = "1.prems"(1) and clr = "1.prems"(2) and Ix = "1.prems"(3) and y = "1.prems"(4)
  have here: "I (caps x) \<and> (\<exists>w. Q w \<and> rest x = w @ rest x \<and> prev x = (if w = [] then prev x else Some (last w)))"
    using Ix nil by (intro conjI exI [of _ "[]"]) simp_all
  have cl: "I (caps (clear_caps ps x))" using clr [OF Ix] by (simp add: clear_caps_def)
  have step: "I (caps y) \<and> (\<exists>w. Q w \<and> rest x = w @ rest y \<and> prev y = (if w = [] then prev x else Some (last w)))"
    if z: "z \<in> set (m (clear_caps ps x))"
      and ih: "I (caps z) \<Longrightarrow> I (caps y) \<and> (\<exists>w. Q w \<and> rest z = w @ rest y \<and> prev y = (if w = [] then prev z else Some (last w)))"
    for z
  proof -
    from m cl z obtain u where u: "Q u" "rest (clear_caps ps x) = u @ rest z"
        "prev z = (if u = [] then prev (clear_caps ps x) else Some (last u))" "I (caps z)"
      by (rule emitsD)
    from ih [OF u(4)] obtain v where v: "I (caps y)" "Q v" "rest z = v @ rest y"
        "prev y = (if v = [] then prev z else Some (last v))" by blast
    have "rest x = (u @ v) @ rest y" using u v by (simp add: clear_caps_def)
    moreover have "prev y = (if u @ v = [] then prev x else Some (last (u @ v)))"
      using u v by (simp add: clear_caps_def)
    moreover have "Q (u @ v)" using u(1) v(2) by (rule app)
    ultimately show ?thesis using v(1) by blast
  qed
  show ?case
  proof (cases "hi = Some 0")
    case True
    then have "y = x" using y by (simp add: m_repeat_done)
    then show ?thesis using here by simp
  next
    case False
    show ?thesis
    proof (cases "lo = 0")
      case lo: False
      from y obtain z where z: "z \<in> set (m (clear_caps ps x))"
        and yz: "y \<in> set (m_repeat m ps (lo - 1) (dec_max hi) z)"
        unfolding m_repeat_more [OF False lo] by auto
      have "I (caps z) \<Longrightarrow> I (caps y) \<and> (\<exists>w. Q w \<and> rest z = w @ rest y \<and> prev y = (if w = [] then prev z else Some (last w)))"
        using "1.IH"(1) [OF False lo z m clr _ yz] by blast
      then show ?thesis by (rule step [OF z])
    next
      case lo: True
      have nn: "\<not> lo \<noteq> 0" using lo by simp
      from y consider "y = x"
        | z where "z \<in> set (filter (\<lambda>y. length (rest y) < length (rest x)) (m (clear_caps ps x)))"
            "y \<in> set (m_repeat m ps 0 (dec_max hi) z)"
        unfolding lo m_repeat_opt [OF False] by auto
      then show ?thesis
      proof cases
        case 1
        then show ?thesis using here by simp
      next
        case (2 z)
        have z': "z \<in> set (m (clear_caps ps x))" using 2(1) by simp
        have "I (caps z) \<Longrightarrow> I (caps y) \<and> (\<exists>w. Q w \<and> rest z = w @ rest y \<and> prev y = (if w = [] then prev z else Some (last w)))"
          using "1.IH"(2) [OF False nn 2(1) m clr _ 2(2)] by blast
        then show ?thesis by (rule step [OF z'])
      qed
    qed
  qed
qed

lemma emits_repeat:
  assumes "emits I m Q" and "Q []" and "\<And>u v. Q u \<Longrightarrow> Q v \<Longrightarrow> Q (u @ v)"
    and "\<And>c. I c \<Longrightarrow> I (\<lambda>n. if n \<in> set ps then None else c n)"
  shows "emits I (m_repeat m ps lo hi) Q"
  by (rule emitsI) (rule emits_repeat_aux [OF assms(2,3,1,4)])

section \<open>The IPv6 pattern needs a colon\<close>

lemma m_seq_nonemptyD: "m_seq a b x \<noteq> [] \<Longrightarrow> \<exists>y\<in>set (a x). b y \<noteq> []"
  by (auto simp: m_seq_def)

lemma m_seq_nonemptyI: "y \<in> set (a x) \<Longrightarrow> b y \<noteq> [] \<Longrightarrow> m_seq a b x \<noteq> []"
  by (auto simp: m_seq_def)

lemma m_seq_firstD: "m_seq a b x \<noteq> [] \<Longrightarrow> a x \<noteq> []"
  by (auto simp: m_seq_def)

lemma m_group_nonempty [simp]: "m_group n m x \<noteq> [] \<longleftrightarrow> m x \<noteq> []"
  by (simp add: m_group_def)

lemma m_alt_nonempty [simp]: "m_alt a b x \<noteq> [] \<longleftrightarrow> a x \<noteq> [] \<or> b x \<noteq> []"
  by (simp add: m_alt_def)

lemma m_lookahead_nonempty [simp]: "m_lookahead m x \<noteq> [] \<longleftrightarrow> m x \<noteq> []"
  by (simp add: m_lookahead_def split: list.splits)

lemma canon_nat:
  fixes n v :: nat
  assumes "v < 97"
  shows "(if (97 \<le> n \<and> n \<le> 122) \<or> (224 \<le> n \<and> n \<le> 254 \<and> n \<noteq> 247) then n - 32 else n) = v
     \<longleftrightarrow> n = v \<or> (65 \<le> v \<and> v \<le> 90 \<and> n = v + 32)"
proof (cases "(97 \<le> n \<and> n \<le> 122) \<or> (224 \<le> n \<and> n \<le> 254 \<and> n \<noteq> 247)")
  case True
  then have "n - 32 = v \<longleftrightarrow> n = v \<or> (65 \<le> v \<and> v \<le> 90 \<and> n = v + 32)"
    using assms by linarith
  then show ?thesis using True by (simp only: if_True)
next
  case False
  then have "n = v \<longleftrightarrow> n = v \<or> (65 \<le> v \<and> v \<le> 90 \<and> n = v + 32)"
    using assms by linarith
  then show ?thesis using False by (simp only: if_False)
qed

lemma canonicalize_True_eq:
  assumes "v < 97"
  shows "canonicalize True c = v \<longleftrightarrow> of_char c = v \<or> (65 \<le> v \<and> v \<le> 90 \<and> of_char c = v + 32)"
  unfolding canonicalize_def Let_def using canon_nat [OF assms, of "of_char c"] by simp

lemma of_char_colon: "of_char c = (58::nat) \<longleftrightarrow> c = CHR '':''"
proof -
  have "of_char c = (58::nat) \<longleftrightarrow> (of_char c :: nat) = of_char CHR '':''" by simp
  then show ?thesis by (simp only: of_char_eq_iff)
qed

lemma class_chars_colon: "class_chars True '':'' = {CHR '':''}"
proof -
  have "canonicalize True CHR '':'' = 58" by (simp add: canonicalize_def)
  moreover have "canonicalize True c = 58 \<longleftrightarrow> c = CHR '':''" for c
    by (subst canonicalize_True_eq) (simp_all add: of_char_colon)
  ultimately have "canonicalize True CHR '':'' = canonicalize True c \<longleftrightarrow> c = CHR '':''" for c
    by (metis (full_types))
  then show ?thesis unfolding class_chars_def by simp
qed

lemma colon_result: "colon x = (case rest x of c # cs \<Rightarrow> if c = CHR '':'' then [move [c] x] else [] | [] \<Rightarrow> [])"
  by (cases "rest x") (simp_all add: colon_def m_char_def m_class_Nil m_class_Cons class_chars_colon)

lemma colon_nonemptyD: "colon x \<noteq> [] \<Longrightarrow> CHR '':'' \<in> set (rest x)"
  by (auto simp: colon_result split: list.splits if_splits)

lemma forward_rest:
  assumes "emits (\<lambda>c. True) m (\<lambda>w. True)" and "y \<in> set (m x)"
  shows "set (rest y) \<subseteq> set (rest x)"
proof -
  from assms obtain w where "rest x = w @ rest y" unfolding emits_def by blast
  then show ?thesis by auto
qed

lemma forward_hex14: "emits (\<lambda>c. True) hex14 (\<lambda>w. True)"
  unfolding hex14_def hex_def
  by (rule emits_repeat) (rule emits_weaken [OF emits_class], simp_all)

lemma forward_any_star: "emits (\<lambda>c. True) any_star (\<lambda>w. True)"
  unfolding any_star_def
  by (rule emits_repeat) (rule emits_weaken [OF emits_dot], simp_all)

lemma then_colon_has_colon:
  assumes "emits (\<lambda>c. True) m (\<lambda>w. True)" and "m_seq m colon x \<noteq> []"
  shows "CHR '':'' \<in> set (rest x)"
proof -
  from assms(2) obtain y where y: "y \<in> set (m x)" "colon y \<noteq> []"
    by (blast dest: m_seq_nonemptyD)
  then show ?thesis using forward_rest [OF assms(1) y(1)] colon_nonemptyD by blast
qed

lemma ipv6_head_compressed_colon:
  assumes "ipv6_head_compressed x \<noteq> []"
  shows "CHR '':'' \<in> set (rest x)"
proof -
  have "m_lookahead (m_seq any_star colons) x \<noteq> []"
    using assms unfolding ipv6_head_compressed_def m_seqs.simps by (rule m_seq_firstD)
  then have "m_seq any_star colons x \<noteq> []" by simp
  then have "m_seq (m_seq any_star colon) colon x \<noteq> []"
    by (simp add: colons_def m_seq_assoc)
  then have "m_seq any_star colon x \<noteq> []" by (rule m_seq_firstD)
  then show ?thesis by (rule then_colon_has_colon [OF forward_any_star])
qed

lemma ipv6_head_full_colon:
  assumes "ipv6_head_full x \<noteq> []"
  shows "CHR '':'' \<in> set (rest x)"
proof -
  have "ipv6_head_full x =
      concat (map (m_repeat (m_group 5 (m_seq hex14 colon)) [5] (6 - 1) (dec_max (Some 6)))
        (m_group 5 (m_seq hex14 colon) (clear_caps [5] x)))"
    unfolding ipv6_head_full_def by (rule m_repeat_more) simp_all
  then have "m_group 5 (m_seq hex14 colon) (clear_caps [5] x) \<noteq> []"
    using assms by (cases "m_group 5 (m_seq hex14 colon) (clear_caps [5] x)") simp_all
  then have "m_seq hex14 colon (clear_caps [5] x) \<noteq> []" by simp
  then have "CHR '':'' \<in> set (rest (clear_caps [5] x))"
    by (rule then_colon_has_colon [OF forward_hex14])
  then show ?thesis by (simp add: clear_caps_def)
qed

lemma ipv6_has_colon:
  assumes "regex_test ipv6 s"
  shows "CHR '':'' \<in> set s"
proof -
  let ?x = "start_state None s"
  have "m_seq (m_group 1 (m_alt ipv6_head_compressed ipv6_head_full))
          (m_seq (m_group 6 (m_alt ipv6_tail_groups ipv6_tail_ipv4)) m_eol) ?x \<noteq> []"
    using assms unfolding ipv6_def m_seqs.simps regex_test_anchored .
  then have "m_group 1 (m_alt ipv6_head_compressed ipv6_head_full) ?x \<noteq> []"
    by (rule m_seq_firstD)
  then have "ipv6_head_compressed ?x \<noteq> [] \<or> ipv6_head_full ?x \<noteq> []"
    by simp
  then have "CHR '':'' \<in> set (rest ?x)"
    using ipv6_head_compressed_colon ipv6_head_full_colon by blast
  then show ?thesis by (simp add: start_state_def)
qed

section \<open>Facts about the functions\<close>

lemma digit_char_digits: "k < 10 \<Longrightarrow> digit_char k \<in> digits"
  unfolding digits_def by (rule digit_char_in)

lemma dec_digits: "set (dec n) \<subseteq> digits \<and> dec n \<noteq> []"
proof (induction n rule: dec.induct)
  case (1 n)
  show ?case
  proof (cases "n < 10")
    case True
    then show ?thesis using digit_char_digits [of n] by (simp add: dec_1)
  next
    case False
    have "dec n = dec (n div 10) @ [digit_char (n mod 10)]"
      using False by (subst dec.simps) simp
    moreover have "digit_char (n mod 10) \<in> digits" by (rule digit_char_digits) simp
    ultimately show ?thesis using 1 [OF False] by simp
  qed
qed

lemma dec_nonempty [simp]: "dec n \<noteq> []"
  using dec_digits by blast

lemma join_chars: "set (join sep ts) \<subseteq> insert sep (\<Union>(set ` set ts))"
  by (induction sep ts rule: join.induct) auto

lemma dotted_chars: "set (dotted ns) \<subseteq> insert CHR ''.'' digits"
proof -
  have "set (dotted ns) \<subseteq> insert CHR ''.'' (\<Union>(set ` set (map dec ns)))"
    unfolding dotted_def by (rule join_chars)
  moreover have "\<Union>(set ` set (map dec ns)) \<subseteq> digits"
    using dec_digits by auto
  ultimately show ?thesis by blast
qed

lemma colon_not_digit: "CHR '':'' \<notin> insert CHR ''.'' digits"
  by (simp add: digits_def)

lemma dotted_no_colon: "CHR '':'' \<notin> set (dotted ns)"
  using dotted_chars [of ns] colon_not_digit by blast

lemma regex_test_ipv4_iff:
  "regex_test ipv4 s \<longleftrightarrow>
     (\<exists>a b c d. a \<le> 255 \<and> b \<le> 255 \<and> c \<le> 255 \<and> d \<le> 255 \<and> s = dotted [a, b, c, d])"
  by (simp only: regex_test_ipv4_lang ipv4_lang_dotted)

lemma regex_test_ipv4_chars:
  assumes "regex_test ipv4 s"
  shows "s \<noteq> [] \<and> set s \<subseteq> insert CHR ''.'' digits"
proof -
  from assms obtain a b c d where s: "s = dotted [a, b, c, d]"
    unfolding regex_test_ipv4_iff by blast
  have "s \<noteq> []" unfolding s dotted_def by simp
  moreover have "set s \<subseteq> insert CHR ''.'' digits" unfolding s by (rule dotted_chars)
  ultimately show ?thesis by blast
qed

lemma truthy_isIp_Str:
  "truthy (isIp (Str s)) \<longleftrightarrow> s \<noteq> [] \<and> (regex_test ipv4 s \<or> regex_test ipv6 s)"
  by simp

lemma isIp_Str_nonempty:
  "s \<noteq> [] \<Longrightarrow> isIp (Str s) = JBoolean (regex_test ipv4 s \<or> regex_test ipv6 s)"
  by simp

lemma truthy_isIp_ipv4: "regex_test ipv4 s \<Longrightarrow> truthy (isIp (Str s))"
  using regex_test_ipv4_chars [of s] by simp

lemma not_truthy_isIp:
  assumes "CHR '':'' \<notin> set s" and "\<not> set s \<subseteq> insert CHR ''.'' digits"
  shows "\<not> truthy (isIp (Str s))"
proof -
  have "\<not> regex_test ipv4 s" using assms(2) regex_test_ipv4_chars by blast
  moreover have "\<not> regex_test ipv6 s" using assms(1) ipv6_has_colon by blast
  ultimately show ?thesis by simp
qed

lemma truthy_isIp_is_Str: "truthy (isIp v) \<Longrightarrow> \<exists>s. v = Str s"
  by (cases v) simp_all

lemma first_ip_find:
  "first_ip ips i =
     (case find (\<lambda>t. truthy (isIp (Str t))) (drop i ips) of None \<Rightarrow> Null | Some t \<Rightarrow> Str t)"
proof (induction ips i rule: first_ip.induct)
  case (1 ips i)
  show ?case
  proof (cases "i < length ips")
    case False
    then show ?thesis by (subst first_ip.simps) simp
  next
    case True
    then have d: "drop i ips = ips ! i # drop (Suc i) ips" by (simp add: Cons_nth_drop_Suc)
    show ?thesis
    proof (cases "truthy (isIp (Str (ips ! i)))")
      case v: True
      show ?thesis using True v by (subst first_ip.simps) (simp add: d del: isIp.simps)
    next
      case v: False
      show ?thesis using True v 1 [OF True v]
        by (subst first_ip.simps) (simp add: d del: isIp.simps)
    qed
  qed
qed

lemma typeof_string: "typeof v = ''string'' \<longleftrightarrow> (\<exists>s. v = JString s)"
  by (cases v) simp_all

lemma xff_string:
  "getClientIpFromXForwardedFor (JString s) =
     Inr (if s = [] then Null else first_ip (map forwarded_entry (split_on CHR '','' s)) 0)"
  by (simp add: getClientIpFromXForwardedFor_def)

lemma trim_Nil [simp]: "trim [] = []"
  by (simp add: trim_def)

lemma forwarded_entry_Nil [simp]: "forwarded_entry [] = []"
  by (simp add: forwarded_entry_def str_includes_def)

lemma xff_find:
  "getClientIpFromXForwardedFor (JString s) =
     Inr (case find (\<lambda>t. truthy (isIp (Str t))) (map forwarded_entry (split_on CHR '','' s)) of
            None \<Rightarrow> Null | Some t \<Rightarrow> Str t)"
  by (cases "s = []") (simp_all add: xff_string first_ip_find del: isIp.simps, simp)

lemma xff_null: "getClientIpFromXForwardedFor JNull = Inr Null"
  by (simp add: getClientIpFromXForwardedFor_def)

lemma xff_result_valid:
  assumes "getClientIpFromXForwardedFor v = Inr r"
  shows "r = Null \<or> (\<exists>s. r = Str s \<and> truthy (isIp (Str s)))"
proof (cases "\<exists>s. v = JString s \<and> s \<noteq> []")
  case True
  then obtain s where s: "v = JString s" by blast
  let ?f = "find (\<lambda>t. truthy (isIp (Str t))) (map forwarded_entry (split_on CHR '','' s))"
  show ?thesis
  proof (cases ?f)
    case None
    then show ?thesis using assms s by (simp add: xff_find del: isIp.simps)
  next
    case (Some t)
    then have "truthy (isIp (Str t))" by (auto simp: find_Some_iff)
    moreover have "r = Str t" using assms s Some by (simp add: xff_find del: isIp.simps)
    ultimately show ?thesis by blast
  qed
next
  case False
  then have "getClientIpFromXForwardedFor v = Inr Null \<or> (\<exists>e. getClientIpFromXForwardedFor v = Inl e)"
    by (cases v) (auto simp: getClientIpFromXForwardedFor_def)
  then show ?thesis using assms by auto
qed

section \<open>Splitting, cleaning and concrete addresses\<close>

lemma split_on_nonempty [simp]: "split_on sep s \<noteq> []"
  by (induction s) (auto split: list.splits)

lemma length_split_on: "length (split_on sep s) = Suc (count_list s sep)"
  by (induction s) (auto split: list.splits)

lemma split_on_no_sep: "sep \<notin> set s \<Longrightarrow> split_on sep s = [s]"
  by (induction s) auto

lemma split_on_append: "sep \<notin> set a \<Longrightarrow> split_on sep (a @ sep # b) = a # split_on sep b"
  by (induction a) auto

lemma count_list_one:
  assumes "count_list s sep = 1"
  obtains a b where "s = a @ sep # b" and "sep \<notin> set a" and "sep \<notin> set b"
proof -
  have "sep \<in> set s" using assms by (metis count_list_0_iff zero_neq_one)
  then obtain a b where ab: "s = a @ sep # b" "sep \<notin> set a" by (meson split_list_first)
  then have "count_list a sep = 0" by (simp add: count_list_0_iff)
  then have "count_list b sep = 0" using assms ab(1) by simp
  then have "sep \<notin> set b" by (simp add: count_list_0_iff)
  then show ?thesis using ab that by blast
qed

lemma forwarded_entry_two:
  assumes "length (split_on CHR '':'' (trim e)) = 2"
  shows "\<exists>a b. trim e = a @ CHR '':'' # b \<and> CHR '':'' \<notin> set a \<and> CHR '':'' \<notin> set b \<and>
           forwarded_entry e = a"
proof -
  from assms have "count_list (trim e) CHR '':'' = 1" by (simp add: length_split_on)
  then obtain a b where ab: "trim e = a @ CHR '':'' # b" "CHR '':'' \<notin> set a" "CHR '':'' \<notin> set b"
    by (rule count_list_one)
  have "split_on CHR '':'' (trim e) = [a, b]"
    using ab by (simp add: split_on_append split_on_no_sep)
  then have "forwarded_entry e = a"
    using ab(1) by (simp add: forwarded_entry_def str_includes_def Let_def)
  then show ?thesis using ab by blast
qed

lemma forwarded_entry_other:
  assumes "length (split_on CHR '':'' (trim e)) \<noteq> 2"
  shows "forwarded_entry e = trim e"
  using assms by (simp add: forwarded_entry_def Let_def)

lemma accept_quad:
  assumes "a \<le> 255" "b \<le> 255" "c \<le> 255" "d \<le> 255"
  shows "truthy (isIp (Str (dotted [a, b, c, d])))"
proof -
  have "regex_test ipv4 (dotted [a, b, c, d])"
    unfolding regex_test_ipv4_iff using assms by blast
  then show ?thesis by (rule truthy_isIp_ipv4)
qed

lemma dotted_203: "dotted [203, 0, 113, 5] = ''203.0.113.5''"
  by (simp add: dotted_def dec.simps digit_char_def)

lemma dotted_70: "dotted [70, 41, 3, 18] = ''70.41.3.18''"
  by (simp add: dotted_def dec.simps digit_char_def)

lemma dotted_9: "dotted [9, 9, 9, 9] = ''9.9.9.9''"
  by (simp add: dotted_def dec.simps digit_char_def)

lemma dotted_1: "dotted [1, 1, 1, 1] = ''1.1.1.1''"
  by (simp add: dotted_def dec.simps digit_char_def)

lemma isIp_203: "truthy (isIp (Str ''203.0.113.5''))"
  using accept_quad [of 203 0 113 5] by (simp only: dotted_203)

lemma isIp_70: "truthy (isIp (Str ''70.41.3.18''))"
  using accept_quad [of 70 41 3 18] by (simp only: dotted_70)

lemma isIp_9: "truthy (isIp (Str ''9.9.9.9''))"
  using accept_quad [of 9 9 9 9] by (simp only: dotted_9)

lemma isIp_1: "truthy (isIp (Str ''1.1.1.1''))"
  using accept_quad [of 1 1 1 1] by (simp only: dotted_1)

lemma isIp_unknown: "\<not> truthy (isIp (Str ''unknown''))"
  by (rule not_truthy_isIp) (simp_all add: digits_def)

lemma trim_ex1: "trim '' 70.41.3.18'' = ''70.41.3.18''"
  by (simp add: trim_def is_white_space_def)

section \<open>The precedence chain\<close>

lemma lower_pseudo: "map ascii_lower ''Cf-Pseudo-IPv4'' = ''cf-pseudo-ipv4''"
  by code_simp

lemma headers_get_pseudo: "headers_get h ''Cf-Pseudo-IPv4'' = headers_get h ''cf-pseudo-ipv4''"
  by (simp only: headers_get_def lower_pseudo) (simp add: ascii_lower_def)

lemma xff_header_cases:
  obtains "getClientIpFromXForwardedFor (js (headers_get h n)) = Inr Null"
  | s where "getClientIpFromXForwardedFor (js (headers_get h n)) = Inr (Str s)"
      and "truthy (isIp (Str s))"
proof -
  obtain r where r: "getClientIpFromXForwardedFor (js (headers_get h n)) = Inr r"
    by (cases "h (map ascii_lower n)") (simp_all add: headers_get_def xff_null xff_find)
  from xff_result_valid [OF r] show ?thesis using r that by blast
qed

lemma header_ip_candidate:
  "name \<noteq> ''x-forwarded-for'' \<Longrightarrow> spec_candidate h name = header_ip h name"
  by (simp add: spec_candidate_def header_ip_def)

lemma chain_last:
  "(case c of None \<Rightarrow> None | Some ip \<Rightarrow> Some (Inr ip)) = map_option Inr c"
  by (cases c) simp_all

lemma chain_id: "(case c of None \<Rightarrow> None | Some ip \<Rightarrow> Some ip) = c"
  by (cases c) simp_all

lemma chain_step:
  "(case c of None \<Rightarrow> map_option Inr X | Some ip \<Rightarrow> Some (Inr ip)) =
   map_option Inr (case c of None \<Rightarrow> X | Some ip \<Rightarrow> Some ip)"
  by (cases c) simp_all

lemma chain_step_Some:
  "(case c of None \<Rightarrow> Some (Inr v) | Some ip \<Rightarrow> Some (Inr ip)) =
   map_option Inr (case c of None \<Rightarrow> Some v | Some ip \<Rightarrow> Some ip)"
  by (cases c) simp_all

lemma spec_first_append:
  "spec_first h (xs @ ys) = (case spec_first h xs of Some ip \<Rightarrow> Some ip | None \<Rightarrow> spec_first h ys)"
  by (induction xs) (simp_all split: option.splits)

lemma proxy_headers_chain:
  "proxy_headers h = map_option Inr (spec_first h (butlast spec_priority_order))"
proof -
  have hc: "header_ip h name = spec_candidate h name" if "name \<noteq> ''x-forwarded-for''" for name
    using that by (simp add: header_ip_candidate)
  show ?thesis
  proof (cases rule: xff_header_cases [of h "''x-forwarded-for''"])
    case 1
    then have x: "spec_candidate h ''x-forwarded-for'' = None"
      by (simp add: spec_candidate_def)
    show ?thesis
      unfolding proxy_headers_def spec_priority_order_def
      by (simp add: 1 x hc chain_last chain_id chain_step cong: option.case_cong)
  next
    case (2 s)
    then have x: "spec_candidate h ''x-forwarded-for'' = Some (Str s)"
      by (simp add: spec_candidate_def)
    show ?thesis
      unfolding proxy_headers_def spec_priority_order_def
      using 2(2) by (simp add: 2(1) x hc chain_last chain_id chain_step chain_step_Some cong: option.case_cong)
  qed
qed

lemma getClientIp_chain:
  assumes "headers req = Some h"
  shows "getClientIp req = Inr (spec_resolve h)"
proof -
  have ps: "header_ip h ''Cf-Pseudo-IPv4'' = spec_first h [''cf-pseudo-ipv4'']"
    by (simp add: header_ip_def headers_get_pseudo spec_candidate_def)
  have split: "spec_priority_order = butlast spec_priority_order @ [''cf-pseudo-ipv4'']"
    by (simp add: spec_priority_order_def)
  have "spec_first h spec_priority_order =
      (case spec_first h (butlast spec_priority_order) of
         Some ip \<Rightarrow> Some ip | None \<Rightarrow> spec_first h [''cf-pseudo-ipv4''])"
    by (subst split) (rule spec_first_append)
  then show ?thesis
    unfolding getClientIp_def spec_resolve_def
    by (simp add: assms proxy_headers_chain ps split: option.splits)
qed

lemma spec_candidate_valid: "spec_candidate h name = Some r \<Longrightarrow> truthy (isIp r)"
proof (cases "name = ''x-forwarded-for''")
  case True
  assume a: "spec_candidate h name = Some r"
  show ?thesis
  proof (cases rule: xff_header_cases [of h "''x-forwarded-for''"])
    case 1
    then show ?thesis using a True by (simp add: spec_candidate_def)
  next
    case (2 s)
    then show ?thesis using a True by (auto simp: spec_candidate_def)
  qed
next
  case False
  assume "spec_candidate h name = Some r"
  then show ?thesis using False by (auto simp: spec_candidate_def split: if_splits)
qed

lemma spec_first_valid: "spec_first h names = Some r \<Longrightarrow> truthy (isIp r)"
proof (induction names)
  case Nil
  then show ?case by simp
next
  case (Cons n names)
  show ?case
  proof (cases "spec_candidate h n")
    case None
    then show ?thesis using Cons by simp
  next
    case (Some a)
    then have "r = a" using Cons.prems by simp
    then show ?thesis using Some spec_candidate_valid by blast
  qed
qed

section \<open>The Forwarded-For Decomposer\<close>

lemma entry_unknown: "forwarded_entry ''unknown'' = ''unknown''"
  by (simp add: forwarded_entry_def trim_def is_white_space_def str_includes_def)

lemma entry_70: "forwarded_entry '' 70.41.3.18'' = ''70.41.3.18''"
  by (simp add: forwarded_entry_def trim_def is_white_space_def str_includes_def)

lemma entry_203: "forwarded_entry ''203.0.113.5'' = ''203.0.113.5''"
  by (simp add: forwarded_entry_def trim_def is_white_space_def str_includes_def)

lemma entry_203_port: "forwarded_entry ''203.0.113.5:4711'' = ''203.0.113.5''"
  by (simp add: forwarded_entry_def trim_def is_white_space_def str_includes_def)

lemma entry_150: "forwarded_entry '' 150.172.238.178'' = ''150.172.238.178''"
  by (simp add: forwarded_entry_def trim_def is_white_space_def str_includes_def)

lemma xff_unknown_70:
  "getClientIpFromXForwardedFor (JString ''unknown, 70.41.3.18'') = Inr (Str ''70.41.3.18'')"
  by (simp add: xff_find entry_unknown entry_70 isIp_unknown isIp_70 del: isIp.simps)

lemma xff_three:
  "getClientIpFromXForwardedFor (JString ''203.0.113.5, 70.41.3.18, 150.172.238.178'') =
     Inr (Str ''203.0.113.5'')"
  by (simp add: xff_find entry_203 entry_70 entry_150 isIp_203 del: isIp.simps)

lemma xff_port:
  "getClientIpFromXForwardedFor (JString ''203.0.113.5:4711, 70.41.3.18'') = Inr (Str ''203.0.113.5'')"
  by (simp add: xff_find entry_203_port entry_70 isIp_203 del: isIp.simps)

text \<open>
  C4: for every forwarded-for string the Decomposer returns the first cleaned token,
  scanning left to right, that \<open>isIp\<close> accepts, and the not-found value when there is
  none; so \<open>unknown, 70.41.3.18\<close> gives \<open>70.41.3.18\<close> and
  \<open>203.0.113.5, 70.41.3.18, 150.172.238.178\<close> gives \<open>203.0.113.5\<close>.
\<close>

theorem xff_first_valid_token:
  "getClientIpFromXForwardedFor (JString s) =
     Inr (case find (\<lambda>t. truthy (isIp (Str t))) (map forwarded_entry (split_on CHR '','' s)) of
            None \<Rightarrow> Null | Some t \<Rightarrow> Str t)
   \<and> getClientIpFromXForwardedFor (JString ''unknown, 70.41.3.18'') = Inr (Str ''70.41.3.18'')
   \<and> getClientIpFromXForwardedFor (JString ''203.0.113.5, 70.41.3.18, 150.172.238.178'') =
       Inr (Str ''203.0.113.5'')"
  using xff_find [of s] xff_unknown_70 xff_three by blast

text \<open>
  C5: a trimmed token that splits on the colon into exactly two parts is replaced by
  the part before the colon; a token that splits into any other number of parts is
  kept whole (trimmed); so \<open>203.0.113.5:4711, 70.41.3.18\<close> resolves to
  \<open>203.0.113.5\<close>.
\<close>

theorem forwarded_entry_port:
  "(length (split_on CHR '':'' (trim e)) = 2 \<longrightarrow>
      (\<exists>a b. trim e = a @ CHR '':'' # b \<and> CHR '':'' \<notin> set a \<and> CHR '':'' \<notin> set b \<and>
             forwarded_entry e = a))
   \<and> (length (split_on CHR '':'' (trim e)) \<noteq> 2 \<longrightarrow> forwarded_entry e = trim e)
   \<and> getClientIpFromXForwardedFor (JString ''203.0.113.5:4711, 70.41.3.18'') =
       Inr (Str ''203.0.113.5'')"
  using forwarded_entry_two [of e] forwarded_entry_other [of e] xff_port by blast

theorem forwarded_entry_port_witness:
  "length (split_on CHR '':'' (trim '' 203.0.113.5:4711'')) = 2
   \<and> forwarded_entry '' 203.0.113.5:4711'' = ''203.0.113.5''
   \<and> length (split_on CHR '':'' (trim ''2001:db8::1 '')) \<noteq> 2
   \<and> forwarded_entry ''2001:db8::1 '' = ''2001:db8::1''"
proof -
  have t1: "trim '' 203.0.113.5:4711'' = ''203.0.113.5:4711''"
    by (simp add: trim_def is_white_space_def)
  have t2: "trim ''2001:db8::1 '' = ''2001:db8::1''"
    by (simp add: trim_def is_white_space_def)
  have l1: "length (split_on CHR '':'' (trim '' 203.0.113.5:4711'')) = 2"
    unfolding t1 by simp
  have l2: "length (split_on CHR '':'' (trim ''2001:db8::1 '')) \<noteq> 2"
    unfolding t2 by simp
  from forwarded_entry_port [of "'' 203.0.113.5:4711''"] l1
  obtain a b where "trim '' 203.0.113.5:4711'' = a @ CHR '':'' # b" "CHR '':'' \<notin> set a"
    "forwarded_entry '' 203.0.113.5:4711'' = a" by blast
  then have "forwarded_entry '' 203.0.113.5:4711'' = ''203.0.113.5''"
    unfolding t1 by (auto simp: append_eq_Cons_conv Cons_eq_append_conv)
  moreover have "forwarded_entry ''2001:db8::1 '' = ''2001:db8::1''"
    using forwarded_entry_port [of "''2001:db8::1 ''"] l2 t2 by simp
  ultimately show ?thesis using l1 l2 by blast
qed

section \<open>The Resolver and the validator's falsy inputs\<close>

lemma getClientIp_no_headers: "headers req = None \<Longrightarrow> getClientIp req = Inr Null"
  by (simp add: getClientIp_def)

lemma spec_resolve_valid: "spec_resolve h = Null \<or> (\<exists>s. spec_resolve h = Str s \<and> truthy (isIp (Str s)))"
proof (cases "spec_first h spec_priority_order")
  case None
  then show ?thesis by (simp add: spec_resolve_def)
next
  case (Some r)
  then have "truthy (isIp r)" by (rule spec_first_valid)
  moreover from this obtain s where "r = Str s" using truthy_isIp_is_Str by blast
  ultimately show ?thesis using Some by (simp add: spec_resolve_def)
qed

text \<open>
  C1: for every request the Resolver returns a value, and that value is either the
  not-found sentinel or a string that \<open>isIp\<close> accepts.
\<close>

theorem getClientIp_result_valid:
  "\<exists>r. getClientIp req = Inr r \<and> (r = Null \<or> (\<exists>s. r = Str s \<and> truthy (isIp (Str s))))"
proof (cases "headers req")
  case None
  then show ?thesis by (simp add: getClientIp_no_headers)
next
  case (Some h)
  then have "getClientIp req = Inr (spec_resolve h)" by (rule getClientIp_chain)
  then show ?thesis using spec_resolve_valid [of h] by blast
qed

lemma xff_falsy: "\<not> truthy v \<Longrightarrow> getClientIpFromXForwardedFor v = Inr Null"
  by (simp add: getClientIpFromXForwardedFor_def)

lemma xff_type_error:
  "truthy v \<Longrightarrow> typeof v \<noteq> ''string'' \<Longrightarrow>
   getClientIpFromXForwardedFor v =
     Inl (TypeError (''Expected a string, got '' @ [CHR 0x22] @ typeof v @ [CHR 0x22]))"
  by (simp add: getClientIpFromXForwardedFor_def)

lemma xff_error_only:
  assumes "getClientIpFromXForwardedFor v = Inl e"
  shows "truthy v \<and> typeof v \<noteq> ''string''"
proof (rule ccontr)
  assume "\<not> (truthy v \<and> typeof v \<noteq> ''string'')"
  then consider "\<not> truthy v" | s where "v = JString s" using typeof_string by blast
  then show False
  proof cases
    case 1
    then show ?thesis using assms by (simp add: xff_falsy)
  next
    case 2
    then show ?thesis using assms by (simp add: xff_find)
  qed
qed

text \<open>
  C2, as the claim states it, fails: the number \<open>0\<close> is present and is not a string,
  and the Decomposer returns the not-found value for it without raising.
\<close>

theorem xff_non_string_counterexample:
  "typeof (JNumber (Finite 0)) \<noteq> ''string''
   \<and> JNumber (Finite 0) \<noteq> JUndefined \<and> JNumber (Finite 0) \<noteq> JNull
   \<and> getClientIpFromXForwardedFor (JNumber (Finite 0)) = Inr Null"
  by (simp add: getClientIpFromXForwardedFor_def)

text \<open>
  C2, amended: for every truthy input that is not a string the Decomposer raises a
  \<open>TypeError\<close> (the specification's InvalidInputType) naming the type; every falsy
  input (\<open>undefined\<close>, \<open>null\<close>, the empty string, and also \<open>false\<close>, \<open>0\<close>, \<open>NaN\<close>
  and \<open>0n\<close>) gives the not-found value without raising; the Decomposer raises in no
  other case, and the Resolver never raises.
\<close>

theorem xff_raises_only_type_error:
  "(truthy v \<and> typeof v \<noteq> ''string'' \<longrightarrow>
      getClientIpFromXForwardedFor v =
        Inl (TypeError (''Expected a string, got '' @ [CHR 0x22] @ typeof v @ [CHR 0x22])))
   \<and> (\<not> truthy v \<longrightarrow> getClientIpFromXForwardedFor v = Inr Null)
   \<and> (\<forall>e. getClientIpFromXForwardedFor v = Inl e \<longrightarrow> truthy v \<and> typeof v \<noteq> ''string'')
   \<and> (\<exists>r. getClientIp req = Inr r)"
proof -
  have "\<exists>r. getClientIp req = Inr r"
  proof (cases "headers req")
    case None
    then show ?thesis by (simp add: getClientIp_no_headers)
  next
    case (Some h)
    then show ?thesis by (simp add: getClientIp_chain)
  qed
  then show ?thesis using xff_type_error [of v] xff_falsy [of v] xff_error_only [of v] by blast
qed

theorem xff_raises_only_type_error_witness:
  "truthy JObject \<and> typeof JObject \<noteq> ''string''
   \<and> getClientIpFromXForwardedFor JObject =
       Inl (TypeError (''Expected a string, got '' @ [CHR 0x22] @ ''object'' @ [CHR 0x22]))
   \<and> \<not> truthy (JBoolean False)
   \<and> getClientIpFromXForwardedFor (JBoolean False) = Inr Null"
  using xff_raises_only_type_error [of JObject] xff_raises_only_type_error [of "JBoolean False"]
  by simp

text \<open>
  C9, as the claim states it, fails: for \<open>undefined\<close> the validator returns
  \<open>undefined\<close>, the left operand of \<open>&&\<close>, and not the boolean \<open>false\<close>.
\<close>

theorem isIp_undefined_counterexample: "isIp Undefined \<noteq> JBoolean False"
  by simp

text \<open>
  C9, amended: for \<open>undefined\<close>, \<open>null\<close> and the empty string the validator returns
  its falsy argument itself, for \<open>unknown\<close> it returns \<open>false\<close>; each result is
  falsy, and none of the four raises.
\<close>

theorem isIp_falsy_inputs:
  "isIp Undefined = JUndefined \<and> isIp Null = JNull \<and> isIp (Str []) = JString []
   \<and> isIp (Str ''unknown'') = JBoolean False
   \<and> \<not> truthy (isIp Undefined) \<and> \<not> truthy (isIp Null) \<and> \<not> truthy (isIp (Str []))
   \<and> \<not> truthy (isIp (Str ''unknown''))"
proof -
  have "isIp (Str ''unknown'') = JBoolean False"
    using isIp_unknown by simp
  then show ?thesis using isIp_unknown by simp
qed

text \<open>
  C3: with a header source, the Resolver is the first success in the fixed order
  x-client-ip, x-forwarded-for (through the Decomposer), cf-connecting-ip,
  do-connecting-ip, fastly-client-ip, true-client-ip, x-real-ip, x-cluster-client-ip,
  x-forwarded, forwarded-for, forwarded, x-appengine-user-ip, cf-pseudo-ipv4; with
  x-client-ip \<open>9.9.9.9\<close> and x-forwarded-for \<open>1.1.1.1\<close> it returns \<open>9.9.9.9\<close>.
\<close>

lemma get_x_client_ip:
  "headers_get [''x-client-ip'' \<mapsto> ''9.9.9.9'', ''x-forwarded-for'' \<mapsto> ''1.1.1.1''] ''x-client-ip''
     = Str ''9.9.9.9''"
  by (simp add: headers_get_def ascii_lower_def)

lemma resolve_9_1:
  "getClientIp \<lparr>headers = Some [''x-client-ip'' \<mapsto> ''9.9.9.9'', ''x-forwarded-for'' \<mapsto> ''1.1.1.1'']\<rparr>
     = Inr (Str ''9.9.9.9'')"
  using isIp_9
  by (simp add: getClientIp_def proxy_headers_def header_ip_def get_x_client_ip del: isIp.simps)

theorem getClientIp_priority_order:
  "(headers req = Some h \<longrightarrow> getClientIp req = Inr (spec_resolve h))
   \<and> getClientIp \<lparr>headers = Some [''x-client-ip'' \<mapsto> ''9.9.9.9'', ''x-forwarded-for'' \<mapsto> ''1.1.1.1'']\<rparr>
       = Inr (Str ''9.9.9.9'')"
  using getClientIp_chain [of req h] resolve_9_1 by blast

theorem getClientIp_priority_order_witness:
  "headers \<lparr>headers = Some [''x-client-ip'' \<mapsto> ''9.9.9.9'', ''x-forwarded-for'' \<mapsto> ''1.1.1.1'']\<rparr>
     = Some [''x-client-ip'' \<mapsto> ''9.9.9.9'', ''x-forwarded-for'' \<mapsto> ''1.1.1.1'']
   \<and> spec_resolve [''x-client-ip'' \<mapsto> ''9.9.9.9'', ''x-forwarded-for'' \<mapsto> ''1.1.1.1'']
       = Str ''9.9.9.9''"
proof -
  let ?h = "[''x-client-ip'' \<mapsto> ''9.9.9.9'', ''x-forwarded-for'' \<mapsto> ''1.1.1.1'']"
  have "getClientIp \<lparr>headers = Some ?h\<rparr> = Inr (spec_resolve ?h)"
    using getClientIp_priority_order [of "\<lparr>headers = Some ?h\<rparr>" ?h] by simp
  moreover have "getClientIp \<lparr>headers = Some ?h\<rparr> = Inr (Str ''9.9.9.9'')"
    by (rule resolve_9_1)
  ultimately have "spec_resolve ?h = Str ''9.9.9.9''" by simp
  then show ?thesis by simp
qed

section \<open>Not found, and the Decomposer's result\<close>

lemma isIp_Null: "\<not> truthy (isIp Null)"
  by simp

lemma spec_first_None: "(\<And>n. n \<in> set names \<Longrightarrow> spec_candidate h n = None) \<Longrightarrow> spec_first h names = None"
  by (induction names) simp_all

text \<open>
  C6: without a header source the Resolver returns the not-found value at once; with
  a header source in which no listed header holds a valid address (for
  x-forwarded-for: the Decomposer finds none) and cf-pseudo-ipv4 is absent, it
  returns the not-found value as an ordinary result.
\<close>

theorem getClientIp_none_found:
  "(headers req = None \<longrightarrow> getClientIp req = Inr Null)
   \<and> (headers req = Some h
        \<and> (\<forall>name \<in> set [''x-client-ip'', ''cf-connecting-ip'', ''do-connecting-ip'',
               ''fastly-client-ip'', ''true-client-ip'', ''x-real-ip'', ''x-cluster-client-ip'',
               ''x-forwarded'', ''forwarded-for'', ''forwarded'', ''x-appengine-user-ip''].
              \<not> truthy (isIp (headers_get h name)))
        \<and> getClientIpFromXForwardedFor (js (headers_get h ''x-forwarded-for'')) = Inr Null
        \<and> headers_get h ''cf-pseudo-ipv4'' = Null
      \<longrightarrow> getClientIp req = Inr Null)"
proof (intro conjI impI)
  assume "headers req = None"
  then show "getClientIp req = Inr Null" by (rule getClientIp_no_headers)
next
  assume a: "headers req = Some h
        \<and> (\<forall>name \<in> set [''x-client-ip'', ''cf-connecting-ip'', ''do-connecting-ip'',
               ''fastly-client-ip'', ''true-client-ip'', ''x-real-ip'', ''x-cluster-client-ip'',
               ''x-forwarded'', ''forwarded-for'', ''forwarded'', ''x-appengine-user-ip''].
              \<not> truthy (isIp (headers_get h name)))
        \<and> getClientIpFromXForwardedFor (js (headers_get h ''x-forwarded-for'')) = Inr Null
        \<and> headers_get h ''cf-pseudo-ipv4'' = Null"
  then show "getClientIp req = Inr Null"
    by (simp add: getClientIp_def proxy_headers_def header_ip_def headers_get_pseudo isIp_Null
          del: isIp.simps)
qed

lemma get_unknown_1:
  "headers_get [''x-client-ip'' \<mapsto> ''unknown''] ''x-client-ip'' = Str ''unknown''"
  by (simp add: headers_get_def ascii_lower_def)

lemma get_unknown_2:
  "name \<noteq> ''x-client-ip'' \<Longrightarrow> map ascii_lower name = name \<Longrightarrow>
   headers_get [''x-client-ip'' \<mapsto> ''unknown''] name = Null"
  by (simp add: headers_get_def)

theorem getClientIp_none_found_witness:
  "getClientIp \<lparr>headers = None\<rparr> = Inr Null
   \<and> getClientIp \<lparr>headers = Some [''x-client-ip'' \<mapsto> ''unknown'']\<rparr> = Inr Null"
proof -
  let ?h = "[''x-client-ip'' \<mapsto> ''unknown'']"
  have 1: "\<forall>name \<in> set [''x-client-ip'', ''cf-connecting-ip'', ''do-connecting-ip'',
               ''fastly-client-ip'', ''true-client-ip'', ''x-real-ip'', ''x-cluster-client-ip'',
               ''x-forwarded'', ''forwarded-for'', ''forwarded'', ''x-appengine-user-ip''].
              \<not> truthy (isIp (headers_get ?h name))"
    using isIp_unknown isIp_Null
    by (simp add: get_unknown_1 get_unknown_2 ascii_lower_def del: isIp.simps)
  have 2: "getClientIpFromXForwardedFor (js (headers_get ?h ''x-forwarded-for'')) = Inr Null"
    by (simp add: get_unknown_2 ascii_lower_def xff_null)
  have 3: "headers_get ?h ''cf-pseudo-ipv4'' = Null"
    by (simp add: get_unknown_2 ascii_lower_def)
  show ?thesis
    using getClientIp_none_found [of "\<lparr>headers = None\<rparr>" ?h]
      getClientIp_none_found [of "\<lparr>headers = Some ?h\<rparr>" ?h] 1 2 3
    by simp
qed

text \<open>
  C10: a value the Decomposer returns is accepted by \<open>isIp\<close> exactly when it is not
  the not-found value, so the Resolver's second validation is a null check; and once
  x-client-ip has failed validation, a non-null Decomposer result is what the
  Resolver returns, whatever the headers of lower priority hold.
\<close>

theorem xff_result_accepted:
  "(getClientIpFromXForwardedFor v = Inr r \<longrightarrow> (truthy (isIp r) \<longleftrightarrow> r \<noteq> Null))
   \<and> (headers req = Some h
        \<and> \<not> truthy (isIp (headers_get h ''x-client-ip''))
        \<and> getClientIpFromXForwardedFor (js (headers_get h ''x-forwarded-for'')) = Inr r'
        \<and> r' \<noteq> Null
      \<longrightarrow> getClientIp req = Inr r')"
proof (intro conjI impI)
  assume "getClientIpFromXForwardedFor v = Inr r"
  from xff_result_valid [OF this] show "truthy (isIp r) \<longleftrightarrow> r \<noteq> Null" by auto
next
  assume a: "headers req = Some h
        \<and> \<not> truthy (isIp (headers_get h ''x-client-ip''))
        \<and> getClientIpFromXForwardedFor (js (headers_get h ''x-forwarded-for'')) = Inr r'
        \<and> r' \<noteq> Null"
  then have x: "getClientIpFromXForwardedFor (js (headers_get h ''x-forwarded-for'')) = Inr r'"
    by blast
  from xff_result_valid [OF x] a have "truthy (isIp r')" by auto
  then show "getClientIp req = Inr r'"
    using a by (simp add: getClientIp_def proxy_headers_def header_ip_def del: isIp.simps)
qed

lemma get_xff_ex:
  "headers_get [''x-forwarded-for'' \<mapsto> ''unknown, 70.41.3.18'', ''cf-connecting-ip'' \<mapsto> ''9.9.9.9'']
     ''x-forwarded-for'' = Str ''unknown, 70.41.3.18''"
  by (simp add: headers_get_def ascii_lower_def)

lemma get_xci_ex:
  "headers_get [''x-forwarded-for'' \<mapsto> ''unknown, 70.41.3.18'', ''cf-connecting-ip'' \<mapsto> ''9.9.9.9'']
     ''x-client-ip'' = Null"
  by (simp add: headers_get_def ascii_lower_def)

theorem xff_result_accepted_witness:
  "getClientIpFromXForwardedFor (JString ''unknown, 70.41.3.18'') = Inr (Str ''70.41.3.18'')
   \<and> truthy (isIp (Str ''70.41.3.18''))
   \<and> getClientIp \<lparr>headers = Some [''x-forwarded-for'' \<mapsto> ''unknown, 70.41.3.18'',
         ''cf-connecting-ip'' \<mapsto> ''9.9.9.9'']\<rparr> = Inr (Str ''70.41.3.18'')"
proof -
  let ?h = "[''x-forwarded-for'' \<mapsto> ''unknown, 70.41.3.18'', ''cf-connecting-ip'' \<mapsto> ''9.9.9.9'']"
  have x: "getClientIpFromXForwardedFor (JString ''unknown, 70.41.3.18'') = Inr (Str ''70.41.3.18'')"
    by (rule xff_unknown_70)
  have "truthy (isIp (Str ''70.41.3.18''))"
    using xff_result_accepted [of "JString ''unknown, 70.41.3.18''" "Str ''70.41.3.18''"] x by simp
  moreover have "getClientIp \<lparr>headers = Some ?h\<rparr> = Inr (Str ''70.41.3.18'')"
    using xff_result_accepted [of JNull Null "\<lparr>headers = Some ?h\<rparr>" ?h "Str ''70.41.3.18''"] x
    by (simp add: get_xff_ex get_xci_ex)
  ultimately show ?thesis using x by blast
qed

section \<open>Dotted quads\<close>

lemma num_val_snoc: "num_val (w @ [c]) = 10 * num_val w + digit_val c"
  by (simp add: num_val_def)

lemma num_val_dec: "num_val (dec n) = n"
proof (induction n rule: dec.induct)
  case (1 n)
  show ?case
  proof (cases "n < 10")
    case True
    then show ?thesis by (simp add: dec_1 num_val_def digit_val_char)
  next
    case False
    have "dec n = dec (n div 10) @ [digit_char (n mod 10)]"
      using False by (subst dec.simps) simp
    then have "num_val (dec n) = 10 * num_val (dec (n div 10)) + digit_val (digit_char (n mod 10))"
      by (simp only: num_val_snoc)
    also have "\<dots> = 10 * (n div 10) + n mod 10"
      using 1 [OF False] by (simp add: digit_val_char)
    finally show ?thesis by simp
  qed
qed

lemma dec_inj: "dec m = dec n \<Longrightarrow> m = n"
  by (metis num_val_dec)

lemma dot_not_digit: "CHR ''.'' \<notin> digits"
  by (simp add: digits_def)

lemma dec_no_dot: "CHR ''.'' \<notin> set (dec n)"
  using dec_digits [of n] dot_not_digit by blast

lemma split_on_join:
  assumes "ts \<noteq> []" and "\<And>t. t \<in> set ts \<Longrightarrow> sep \<notin> set t"
  shows "split_on sep (join sep ts) = ts"
  using assms
proof (induction sep ts rule: join.induct)
  case (1 sep)
  then show ?case by simp
next
  case (2 sep t)
  then show ?case by (simp add: split_on_no_sep)
next
  case (3 sep t u ts)
  have "split_on sep (join sep (u # ts)) = u # ts"
    using 3 by simp
  moreover have "sep \<notin> set t" using 3 by simp
  ultimately show ?case by (simp add: split_on_append)
qed

lemma split_on_dotted: "ns \<noteq> [] \<Longrightarrow> split_on CHR ''.'' (dotted ns) = map dec ns"
  unfolding dotted_def by (rule split_on_join) (auto simp: dec_no_dot)

lemma dotted_inj:
  assumes "ns \<noteq> []" and "ms \<noteq> []" and "dotted ns = dotted ms"
  shows "ns = ms"
proof -
  have "map dec ns = map dec ms"
    using assms split_on_dotted [of ns] split_on_dotted [of ms] by simp
  moreover have "inj dec" using dec_inj by (rule injI)
  ultimately show ?thesis by (simp add: inj_map_eq_map)
qed

lemma dotted_nonempty:
  assumes "ns \<noteq> []"
  shows "dotted ns \<noteq> []"
proof
  assume "dotted ns = []"
  then have "map dec ns = [[]]" using split_on_dotted [OF assms] by simp
  then obtain z where "dec z = []" by (cases ns) auto
  then show False by simp
qed

lemma reject_dotted:
  assumes "ns \<noteq> []" and "length ns \<noteq> 4 \<or> (\<exists>n\<in>set ns. 255 < n)"
  shows "isIp (Str (dotted ns)) = JBoolean False"
proof -
  have "\<not> regex_test ipv4 (dotted ns)"
  proof
    assume "regex_test ipv4 (dotted ns)"
    then obtain a b c d where q: "a \<le> 255" "b \<le> 255" "c \<le> 255" "d \<le> 255"
      "dotted ns = dotted [a, b, c, d]"
      unfolding regex_test_ipv4_iff by blast
    then have "ns = [a, b, c, d]" using assms(1) by (intro dotted_inj) simp_all
    then show False using assms(2) q by auto
  qed
  moreover have "\<not> regex_test ipv6 (dotted ns)"
    using ipv6_has_colon dotted_no_colon by blast
  ultimately show ?thesis using dotted_nonempty [OF assms(1)] by simp
qed

lemma accept_quad_true:
  assumes "a \<le> 255" "b \<le> 255" "c \<le> 255" "d \<le> 255"
  shows "isIp (Str (dotted [a, b, c, d])) = JBoolean True"
proof -
  have "regex_test ipv4 (dotted [a, b, c, d])"
    unfolding regex_test_ipv4_iff using assms by blast
  moreover have "dotted [a, b, c, d] \<noteq> []" by (rule dotted_nonempty) simp
  ultimately show ?thesis by simp
qed

lemma whole_match:
  assumes "CHR '':'' \<notin> set s" and "truthy (isIp (Str s))"
  shows "\<exists>a b c d. a \<le> 255 \<and> b \<le> 255 \<and> c \<le> 255 \<and> d \<le> 255 \<and> s = dotted [a, b, c, d]"
proof -
  have "\<not> regex_test ipv6 s" using assms(1) ipv6_has_colon by blast
  then have "regex_test ipv4 s" using assms(2) by (simp split: if_splits)
  then show ?thesis unfolding regex_test_ipv4_iff .
qed

text \<open>
  C7: every string of four dot-separated decimal octets, each in the range 0 to 255,
  is accepted (the validator returns \<open>true\<close>); a string of dot-separated decimal
  numbers with a number above 255 or with a number of segments other than four is
  rejected (it returns \<open>false\<close>); and the match is of the whole string: a string
  without a colon is accepted only if all of it is such a dotted quad, so text
  before or after a valid address makes it invalid.
\<close>

theorem isIp_dotted_quad:
  "(a \<le> 255 \<and> b \<le> 255 \<and> c \<le> 255 \<and> d \<le> 255 \<longrightarrow>
      isIp (Str (dotted [a, b, c, d])) = JBoolean True)
   \<and> (ns \<noteq> [] \<and> (length ns \<noteq> 4 \<or> (\<exists>n\<in>set ns. 255 < n)) \<longrightarrow>
        isIp (Str (dotted ns)) = JBoolean False)
   \<and> (CHR '':'' \<notin> set s \<and> truthy (isIp (Str s)) \<longrightarrow>
        (\<exists>a b c d. a \<le> 255 \<and> b \<le> 255 \<and> c \<le> 255 \<and> d \<le> 255 \<and> s = dotted [a, b, c, d]))"
  using accept_quad_true [of a b c d] reject_dotted [of ns] whole_match [of s] by blast

lemma dotted_256: "dotted [256, 0, 113, 5] = ''256.0.113.5''"
  by (simp add: dotted_def dec.simps digit_char_def)

lemma dotted_3: "dotted [203, 0, 113] = ''203.0.113''"
  by (simp add: dotted_def dec.simps digit_char_def)

theorem isIp_dotted_quad_witness:
  "isIp (Str ''203.0.113.5'') = JBoolean True
   \<and> isIp (Str ''256.0.113.5'') = JBoolean False
   \<and> isIp (Str ''203.0.113'') = JBoolean False
   \<and> CHR '':'' \<notin> set ''203.0.113.5'' \<and> truthy (isIp (Str ''203.0.113.5''))
   \<and> (\<exists>a b c d. a \<le> 255 \<and> b \<le> 255 \<and> c \<le> 255 \<and> d \<le> 255 \<and>
         ''203.0.113.5'' = dotted [a, b, c, d])"
proof -
  have 1: "isIp (Str ''203.0.113.5'') = JBoolean True"
    using isIp_dotted_quad [of 203 0 113 5] by (simp only: dotted_203) simp
  have 2: "isIp (Str ''256.0.113.5'') = JBoolean False"
    using isIp_dotted_quad [of 0 0 0 0 "[256, 0, 113, 5]"] by (simp only: dotted_256) simp
  have 3: "isIp (Str ''203.0.113'') = JBoolean False"
    using isIp_dotted_quad [of 0 0 0 0 "[203, 0, 113]"] by (simp only: dotted_3) simp
  have 4: "CHR '':'' \<notin> set ''203.0.113.5''" by simp
  have 5: "truthy (isIp (Str ''203.0.113.5''))" by (simp only: 1) simp
  have 6: "\<exists>a b c d. a \<le> 255 \<and> b \<le> 255 \<and> c \<le> 255 \<and> d \<le> 255 \<and>
         ''203.0.113.5'' = dotted [a, b, c, d]"
    using isIp_dotted_quad [of 0 0 0 0 "[]" "''203.0.113.5''"] 4 5 by blast
  show ?thesis using 1 2 3 4 5 6 by blast
qed

end
